theory Spec2Isabelle
  imports Main "HOL-Library.Char_ord" "HOL-Library.List_Lexorder"
begin

section \<open>The local provider's events adapter\<close>

text \<open>
  A shallow embedding of \<^verbatim>\<open>packages/framework-provider-local/src/library/events-adapter.ts\<close>.

  The adapter is asynchronous code over three external collaborators: the event registry
  (\<^verbatim>\<open>store\<close>, \<^verbatim>\<open>query\<close>, \<^verbatim>\<open>queryLatestSnapshot\<close>), the user application's
  \<^verbatim>\<open>boosterEventDispatcher\<close> and the system clock (\<^verbatim>\<open>new Date()\<close>). Every \<^verbatim>\<open>await\<close>
  of the source is sequential, so an operation is a function from the world before the call
  to a result and the world after it. The world holds the object heap and the trace: the
  calls made to the collaborators so far, oldest first, each with its arguments and its
  outcome. A collaborator is an oracle that answers a call from the trace so far; since the
  theorems hold for every oracle, they hold for every behaviour of the collaborators. The
  logger only observes and is left out.
\<close>

subsection \<open>Envelopes and errors\<close>

text \<open>
  The envelope types come from \<^verbatim>\<open>@boostercloud/framework-types\<close>; the fields are those of
  the specification's data model. At run time an envelope is a plain object that has a
  \<^verbatim>\<open>persistedAt\<close> property or lacks it (\<open>None\<close>); events and snapshots differ in
  \<^verbatim>\<open>kind\<close>. The field \<open>payload\<close> is the property \<^verbatim>\<open>value\<close>.
\<close>

record envelope =
  entityTypeName :: string
  entityID :: string
  kind :: string
  payload :: string
  createdAt :: string
  requestID :: string
  persistedAt :: "string option"

text \<open>A thrown value: an instance of the conflict class, or of any other class.\<close>

datatype error =
    OptimisticConcurrencyUnexpectedVersionError string
  | OtherError string

fun isOptimisticConcurrencyUnexpectedVersionError :: "error \<Rightarrow> bool" where
  "isOptimisticConcurrencyUnexpectedVersionError (OptimisticConcurrencyUnexpectedVersionError m) = True"
| "isOptimisticConcurrencyUnexpectedVersionError (OtherError m) = False"

text \<open>The filter objects built by the two read operations.\<close>

record events_query =
  q_entityID :: string
  q_entityTypeName :: string
  q_kind :: string
  q_createdAt_gt :: string

record snapshot_query =
  sq_entityID :: string
  sq_entityTypeName :: string
  sq_kind :: string

text \<open>What \<^verbatim>\<open>queryLatestSnapshot\<close> resolves to: an object, or one of the two falsy values.\<close>

datatype snapshot_result = SnapshotObject envelope | JsNull | JsUndefined

subsection \<open>The world: heap and trace\<close>

type_synonym addr = nat

datatype event =
    ClockRead string
  | StoreCall envelope "error option"
  | QueryCall events_query "error + envelope list"
  | QueryLatestSnapshotCall snapshot_query "error + snapshot_result"
  | DispatchCall "addr list" "envelope list" "error option"

text \<open>
  Objects live at addresses; \<open>next_free\<close> is the first address not yet allocated, so the
  objects that exist are those below it. The trace is append-only. The collaborators are
  given the contents of the objects passed to them and answer with an outcome; they are
  taken not to write to the caller's objects, so the heap changes only where the adapter's
  own code changes it.
\<close>

record world =
  heap :: "addr \<Rightarrow> envelope"
  next_free :: addr
  trace :: "event list"

type_synonym clock = "event list \<Rightarrow> string"

record EventRegistry =
  store :: "event list \<Rightarrow> envelope \<Rightarrow> error option"
  query :: "event list \<Rightarrow> events_query \<Rightarrow> error + envelope list"
  queryLatestSnapshot :: "event list \<Rightarrow> snapshot_query \<Rightarrow> error + snapshot_result"

record UserApp =
  boosterEventDispatcher :: "event list \<Rightarrow> envelope list \<Rightarrow> error option"

type_synonym 'a promise = "world \<Rightarrow> (error + 'a) \<times> world"

text \<open>A promise of \<^verbatim>\<open>void\<close>: rejected with the error, or resolved.\<close>

fun settle :: "error option \<Rightarrow> error + unit" where
  "settle None = Inr ()"
| "settle (Some e) = Inl e"

text \<open>\<^verbatim>\<open>new Date().toISOString()\<close>\<close>

definition currentTime :: "clock \<Rightarrow> world \<Rightarrow> string \<times> world" where
  "currentTime clk w =
     (let t = clk (trace w) in (t, w\<lparr>trace := trace w @ [ClockRead t]\<rparr>))"

text \<open>\<^verbatim>\<open>eventRegistry.store(record)\<close>\<close>

definition registryStore :: "EventRegistry \<Rightarrow> envelope \<Rightarrow> unit promise" where
  "registryStore eventRegistry r w =
     (let outcome = store eventRegistry (trace w) r
      in (settle outcome, w\<lparr>trace := trace w @ [StoreCall r outcome]\<rparr>))"

text \<open>\<^verbatim>\<open>eventRegistry.query(query)\<close>\<close>

definition registryQuery :: "EventRegistry \<Rightarrow> events_query \<Rightarrow> (envelope list) promise" where
  "registryQuery eventRegistry q w =
     (let outcome = query eventRegistry (trace w) q
      in (outcome, w\<lparr>trace := trace w @ [QueryCall q outcome]\<rparr>))"

text \<open>\<^verbatim>\<open>eventRegistry.queryLatestSnapshot(query)\<close>\<close>

definition registryQueryLatestSnapshot ::
  "EventRegistry \<Rightarrow> snapshot_query \<Rightarrow> snapshot_result promise" where
  "registryQueryLatestSnapshot eventRegistry q w =
     (let outcome = queryLatestSnapshot eventRegistry (trace w) q
      in (outcome, w\<lparr>trace := trace w @ [QueryLatestSnapshotCall q outcome]\<rparr>))"

text \<open>
  \<^verbatim>\<open>userApp.boosterEventDispatcher(eventEnvelopes)\<close>: the dispatcher is handed the
  caller's array, and sees the objects as they are in the heap at that moment.
\<close>

definition dispatch :: "UserApp \<Rightarrow> addr list \<Rightarrow> unit promise" where
  "dispatch userApp eventEnvelopes w =
     (let seen = map (heap w) eventEnvelopes;
          outcome = boosterEventDispatcher userApp (trace w) seen
      in (settle outcome, w\<lparr>trace := trace w @ [DispatchCall eventEnvelopes seen outcome]\<rparr>))"

subsection \<open>The retry policy\<close>

text \<open>
  Modelled from the spec: \<^verbatim>\<open>retryIfError\<close> of \<^verbatim>\<open>@boostercloud/framework-common-helpers\<close>,
  which is not among the sources. Section 4.3: the operation is invoked once; on success its
  result is returned; on a failure of the conflict kind it is retried up to
  \<open>maxAttempts - 1\<close> additional times; a failure of any other kind propagates at once;
  when the attempts are exhausted the conflict error propagates. The backoff delay between
  attempts changes neither heap nor trace and is left out. The events adapter calls the helper
  without naming a bound, so \<open>maxAttempts\<close> is a parameter of the model.
\<close>

fun retryLoop ::
  "('w \<Rightarrow> (error + 'a) \<times> 'w) \<Rightarrow> (error \<Rightarrow> bool) \<Rightarrow> nat \<Rightarrow> 'w \<Rightarrow> (error + 'a) \<times> 'w" where
  "retryLoop operation conflictErrorKind 0 w = operation w"
| "retryLoop operation conflictErrorKind (Suc additional) w =
     (case operation w of
        (Inr v, w') \<Rightarrow> (Inr v, w')
      | (Inl e, w') \<Rightarrow>
          if conflictErrorKind e then retryLoop operation conflictErrorKind additional w'
          else (Inl e, w'))"

definition retryIfError ::
  "('w \<Rightarrow> (error + 'a) \<times> 'w) \<Rightarrow> (error \<Rightarrow> bool) \<Rightarrow> nat \<Rightarrow> 'w \<Rightarrow> (error + 'a) \<times> 'w" where
  "retryIfError operation conflictErrorKind maxAttempts w =
     retryLoop operation conflictErrorKind (maxAttempts - 1) w"

subsection \<open>The four operations\<close>

definition originOfTime :: string where
  "originOfTime = ''1970-01-01T00:00:00.000Z''"

text \<open>\<^verbatim>\<open>since ? since : originOfTime\<close>: an absent and an empty \<^verbatim>\<open>since\<close> are both falsy.\<close>

definition fromTime :: "string option \<Rightarrow> string" where
  "fromTime since =
     (case since of
        None \<Rightarrow> originOfTime
      | Some s \<Rightarrow> if s = [] then originOfTime else s)"

definition readEntityEventsSince ::
  "EventRegistry \<Rightarrow> string \<Rightarrow> string \<Rightarrow> string option \<Rightarrow> (envelope list) promise" where
  "readEntityEventsSince eventRegistry entityTypeName' entityID' since w =
     (let q = \<lparr>q_entityID = entityID', q_entityTypeName = entityTypeName',
               q_kind = ''event'', q_createdAt_gt = fromTime since\<rparr>
      in registryQuery eventRegistry q w)"

definition readEntityLatestSnapshot ::
  "EventRegistry \<Rightarrow> string \<Rightarrow> string \<Rightarrow> (envelope option) promise" where
  "readEntityLatestSnapshot eventRegistry entityTypeName' entityID' w =
     (let q = \<lparr>sq_entityID = entityID', sq_entityTypeName = entityTypeName',
               sq_kind = ''snapshot''\<rparr>
      in case registryQueryLatestSnapshot eventRegistry q w of
           (Inl e, w') \<Rightarrow> (Inl e, w')
         | (Inr (SnapshotObject snapshot), w') \<Rightarrow> (Inr (Some snapshot), w')
         | (Inr JsNull, w') \<Rightarrow> (Inr None, w')
         | (Inr JsUndefined, w') \<Rightarrow> (Inr None, w'))"

text \<open>
  \<^verbatim>\<open>persistEvent\<close>: the object literal \<^verbatim>\<open>{...eventEnvelope, persistedAt: now}\<close> allocates a
  new object, a copy of the envelope's properties with \<^verbatim>\<open>persistedAt\<close> set, and the new
  object is what the registry is given.
\<close>

definition persistEvent :: "clock \<Rightarrow> EventRegistry \<Rightarrow> addr \<Rightarrow> unit promise" where
  "persistEvent clk eventRegistry eventEnvelope w =
     (let (t, w1) = currentTime clk w;
          persistableEvent = next_free w1;
          w2 = w1\<lparr>heap := (heap w1)(persistableEvent :=
                               (heap w1 eventEnvelope)\<lparr>persistedAt := Some t\<rparr>),
                  next_free := Suc persistableEvent\<rparr>
      in registryStore eventRegistry (heap w2 persistableEvent) w2)"

text \<open>The \<^verbatim>\<open>for ... of\<close> loop of \<^verbatim>\<open>storeEvents\<close>; a rejected \<^verbatim>\<open>await\<close> leaves the loop.\<close>

fun persistAll :: "clock \<Rightarrow> nat \<Rightarrow> EventRegistry \<Rightarrow> addr list \<Rightarrow> unit promise" where
  "persistAll clk maxAttempts eventRegistry [] w = (Inr (), w)"
| "persistAll clk maxAttempts eventRegistry (eventEnvelope # rest) w =
     (case retryIfError (persistEvent clk eventRegistry eventEnvelope)
             isOptimisticConcurrencyUnexpectedVersionError maxAttempts w of
        (Inl e, w') \<Rightarrow> (Inl e, w')
      | (Inr u, w') \<Rightarrow> persistAll clk maxAttempts eventRegistry rest w')"

definition storeEvents ::
  "clock \<Rightarrow> nat \<Rightarrow> UserApp \<Rightarrow> EventRegistry \<Rightarrow> addr list \<Rightarrow> unit promise" where
  "storeEvents clk maxAttempts userApp eventRegistry eventEnvelopes w =
     (case persistAll clk maxAttempts eventRegistry eventEnvelopes w of
        (Inl e, w') \<Rightarrow> (Inl e, w')
      | (Inr u, w') \<Rightarrow> dispatch userApp eventEnvelopes w')"

text \<open>\<^verbatim>\<open>storeSnapshot\<close> hands the caller's object itself to the registry.\<close>

definition storeSnapshot :: "nat \<Rightarrow> EventRegistry \<Rightarrow> addr \<Rightarrow> unit promise" where
  "storeSnapshot maxAttempts eventRegistry snapshotEnvelope w =
     retryIfError (\<lambda>w. registryStore eventRegistry (heap w snapshotEnvelope) w)
       isOptimisticConcurrencyUnexpectedVersionError maxAttempts w"

subsection \<open>Reading a trace\<close>

text \<open>The calls of \<^verbatim>\<open>store\<close> in a trace, in order, each with its outcome.\<close>

fun storeCalls :: "event list \<Rightarrow> (envelope \<times> error option) list" where
  "storeCalls [] = []"
| "storeCalls (StoreCall r outcome # tr) = (r, outcome) # storeCalls tr"
| "storeCalls (ev # tr) = storeCalls tr"

text \<open>The records durably stored: those whose \<^verbatim>\<open>store\<close> resolved.\<close>

definition storedRecords :: "event list \<Rightarrow> envelope list" where
  "storedRecords tr = map fst (filter (\<lambda>c. snd c = None) (storeCalls tr))"

fun dispatchCalls :: "event list \<Rightarrow> (addr list \<times> envelope list \<times> error option) list" where
  "dispatchCalls [] = []"
| "dispatchCalls (DispatchCall refs seen outcome # tr) = (refs, seen, outcome) # dispatchCalls tr"
| "dispatchCalls (ev # tr) = dispatchCalls tr"

text \<open>An envelope's properties other than \<^verbatim>\<open>persistedAt\<close>.\<close>

definition withoutPersistedAt :: "envelope \<Rightarrow> envelope" where
  "withoutPersistedAt r = r\<lparr>persistedAt := None\<rparr>"

text \<open>
  What every operation does to the world: objects are only ever allocated, the objects that
  existed keep their contents, and the trace is extended.
\<close>

definition grows :: "world \<Rightarrow> world \<Rightarrow> bool" where
  "grows w w' \<longleftrightarrow>
     next_free w \<le> next_free w' \<and> (\<forall>a. a < next_free w \<longrightarrow> heap w' a = heap w a)
     \<and> (\<exists>tr. trace w' = trace w @ tr)"

text \<open>The events a call added to the trace.\<close>

definition added :: "world \<Rightarrow> world \<Rightarrow> event list" where
  "added w w' = drop (length (trace w)) (trace w')"

text \<open>
  \<open>sequential bound k batch result tr\<close> reads a whole run, its trace \<open>tr\<close> and its
  \<open>result\<close>, against the batch still to be persisted, \<open>k\<close> being the number of failed
  attempts on its head so far. Every \<^verbatim>\<open>store\<close> call must carry the head of the batch
  (with some \<^verbatim>\<open>persistedAt\<close>). After a resolved call the run must go on with the next
  envelope and a fresh count. After a conflict with attempts left the run must go on with
  another attempt on the same envelope. After a conflict on the last attempt, or any other
  failure, the run must end there and its result must be that error. The dispatcher must be
  called when the whole batch is persisted and not before, the run must end with that call
  and its result must be the call's outcome. A run may end in no other way.
\<close>

fun sequential :: "nat \<Rightarrow> nat \<Rightarrow> envelope list \<Rightarrow> error + unit \<Rightarrow> event list \<Rightarrow> bool" where
  "sequential bound k batch result [] = False"
| "sequential bound k batch result (ClockRead t # tr) = sequential bound k batch result tr"
| "sequential bound k [] result (StoreCall r outcome # tr) = False"
| "sequential bound k (x # rest) result (StoreCall r outcome # tr) =
     (withoutPersistedAt r = withoutPersistedAt x \<and> k < bound \<and>
      (case outcome of
         None \<Rightarrow> sequential bound 0 rest result tr
       | Some e \<Rightarrow>
           if isOptimisticConcurrencyUnexpectedVersionError e \<and> Suc k < bound
           then sequential bound (Suc k) (x # rest) result tr
           else tr = [] \<and> result = Inl e))"
| "sequential bound k batch result (DispatchCall refs seen outcome # tr) =
     (batch = [] \<and> tr = [] \<and> result = settle outcome)"
| "sequential bound k batch result (QueryCall q outcome # tr) = False"
| "sequential bound k batch result (QueryLatestSnapshotCall q outcome # tr) = False"

text \<open>
  \<open>stamped clk h tr\<close> reads the trace \<open>tr\<close> that follows the history \<open>h\<close>: every
  \<^verbatim>\<open>store\<close> call must come directly after a reading of the clock, that reading must be
  the clock's answer at that point of the history, and the record stored must carry it as
  its \<^verbatim>\<open>persistedAt\<close>.
\<close>

fun stamped :: "clock \<Rightarrow> event list \<Rightarrow> event list \<Rightarrow> bool" where
  "stamped clk h [] = True"
| "stamped clk h (ev # tr) =
     ((case ev of
         StoreCall r outcome \<Rightarrow>
           h \<noteq> [] \<and>
           (case last h of
              ClockRead t \<Rightarrow> t = clk (butlast h) \<and> persistedAt r = Some t
            | _ \<Rightarrow> False)
       | _ \<Rightarrow> True)
      \<and> stamped clk (h @ [ev]) tr)"

text \<open>A step that extends the trace by well-stamped events.\<close>

definition stampedStep :: "clock \<Rightarrow> world \<Rightarrow> world \<Rightarrow> bool" where
  "stampedStep clk w w' \<longleftrightarrow> grows w w' \<and> stamped clk (trace w) (added w w')"

text \<open>The references of a batch denote objects that exist.\<close>

definition allocated :: "world \<Rightarrow> addr list \<Rightarrow> bool" where
  "allocated w refs = list_all (\<lambda>a. a < next_free w) refs"

text \<open>
  A \<^verbatim>\<open>store\<close> stub that, from the history \<open>base\<close> on, fails with \<open>c\<close> on its first
  \<open>k\<close> calls and succeeds on every later one.
\<close>

definition failsThenSucceeds :: "EventRegistry \<Rightarrow> error \<Rightarrow> nat \<Rightarrow> event list \<Rightarrow> bool" where
  "failsThenSucceeds eventRegistry c k base \<longleftrightarrow>
     (\<forall>h r. store eventRegistry (base @ h) r
              = (if length (storeCalls h) < k then Some c else None))"

subsection \<open>Fixtures\<close>

text \<open>
  A world with three event envelopes of one entity at the addresses 0, 1 and 2, a clock
  whose readings differ from each other, and stubs of the collaborators, for the concrete
  runs below.
\<close>

definition demoEnvelope :: "string \<Rightarrow> envelope" where
  "demoEnvelope t =
     \<lparr>entityTypeName = ''Order'', entityID = ''order-1'', kind = ''event'',
      payload = ''placed'', createdAt = t, requestID = ''req'', persistedAt = None\<rparr>"

definition demoWorld :: world where
  "demoWorld =
     \<lparr>heap = (\<lambda>a. if a = 0 then demoEnvelope ''t1''
                 else if a = 1 then demoEnvelope ''t2'' else demoEnvelope ''t3''),
      next_free = 3, trace = []\<rparr>"

definition demoClock :: clock where
  "demoClock h = replicate (Suc (length h)) CHR ''T''"

definition demoConflict :: error where
  "demoConflict = OptimisticConcurrencyUnexpectedVersionError ''stale version''"

text \<open>A registry whose \<^verbatim>\<open>store\<close> fails with \<open>c\<close> on its first \<open>k\<close> calls, then succeeds.\<close>

definition flakyRegistry :: "nat \<Rightarrow> error \<Rightarrow> EventRegistry" where
  "flakyRegistry k c =
     \<lparr>store = (\<lambda>h r. if length (storeCalls h) < k then Some c else None),
      query = (\<lambda>h q. Inr []),
      queryLatestSnapshot = (\<lambda>h q. Inr JsUndefined)\<rparr>"

text \<open>A registry that rejects every record created at \<open>t\<close> with a conflict.\<close>

definition stubbornRegistry :: "string \<Rightarrow> EventRegistry" where
  "stubbornRegistry t =
     \<lparr>store = (\<lambda>h r. if createdAt r = t then Some demoConflict else None),
      query = (\<lambda>h q. Inr []),
      queryLatestSnapshot = (\<lambda>h q. Inr JsUndefined)\<rparr>"

text \<open>
  A registry that rejects a record created at \<open>t\<close> with a conflict as long as fewer than
  \<open>n\<close> calls of \<^verbatim>\<open>store\<close> have been made.
\<close>

definition hesitantRegistry :: "string \<Rightarrow> nat \<Rightarrow> EventRegistry" where
  "hesitantRegistry t n =
     \<lparr>store = (\<lambda>h r. if createdAt r = t \<and> length (storeCalls h) < n
                       then Some demoConflict else None),
      query = (\<lambda>h q. Inr []),
      queryLatestSnapshot = (\<lambda>h q. Inr JsUndefined)\<rparr>"

definition deliveringApp :: UserApp where
  "deliveringApp = \<lparr>boosterEventDispatcher = (\<lambda>h seen. None)\<rparr>"

definition failingApp :: "error \<Rightarrow> UserApp" where
  "failingApp e = \<lparr>boosterEventDispatcher = (\<lambda>h seen. Some e)\<rparr>"

text \<open>
  Modelled from the spec: the event registry of the local provider, which is not among the
  sources. Section 4.2: \<^verbatim>\<open>query\<close> returns the records that match the entity, the type
  name and the kind and whose \<^verbatim>\<open>createdAt\<close> is strictly greater than the lower bound, in
  ascending order of \<^verbatim>\<open>createdAt\<close>; \<^verbatim>\<open>queryLatestSnapshot\<close> returns the most recent
  matching record or the signal that there is none; \<^verbatim>\<open>store\<close> keeps the record. The
  records it holds are those stored so far, which the trace tells.
\<close>

definition matches :: "events_query \<Rightarrow> envelope \<Rightarrow> bool" where
  "matches q r \<longleftrightarrow>
     entityID r = q_entityID q \<and> entityTypeName r = q_entityTypeName q \<and> kind r = q_kind q
     \<and> q_createdAt_gt q < createdAt r"

definition matchesSnapshot :: "snapshot_query \<Rightarrow> envelope \<Rightarrow> bool" where
  "matchesSnapshot q r \<longleftrightarrow>
     entityID r = sq_entityID q \<and> entityTypeName r = sq_entityTypeName q \<and> kind r = sq_kind q"

definition memoryRegistry :: EventRegistry where
  "memoryRegistry =
     \<lparr>store = (\<lambda>h r. None),
      query = (\<lambda>h q. Inr (sort_key createdAt (filter (matches q) (storedRecords h)))),
      queryLatestSnapshot = (\<lambda>h q.
        case sort_key createdAt (filter (matchesSnapshot q) (storedRecords h)) of
          [] \<Rightarrow> Inr JsUndefined
        | x # xs \<Rightarrow> Inr (SnapshotObject (last (x # xs))))\<rparr>"

definition demoSnapshot :: envelope where
  "demoSnapshot =
     \<lparr>entityTypeName = ''Order'', entityID = ''order-1'', kind = ''snapshot'',
      payload = ''state'', createdAt = ''t2'', requestID = ''req'', persistedAt = None\<rparr>"

definition snapshotWorld :: world where
  "snapshotWorld = demoWorld\<lparr>heap := (heap demoWorld)(2 := demoSnapshot)\<rparr>"

section \<open>Properties\<close>

subsection \<open>Traces and worlds\<close>

lemma storeCalls_append: "storeCalls (a @ b) = storeCalls a @ storeCalls b"
  by (induction a rule: storeCalls.induct) simp_all

lemma dispatchCalls_append: "dispatchCalls (a @ b) = dispatchCalls a @ dispatchCalls b"
  by (induction a rule: dispatchCalls.induct) simp_all

lemma storedRecords_append: "storedRecords (a @ b) = storedRecords a @ storedRecords b"
  by (simp add: storedRecords_def storeCalls_append)

lemma stamped_append:
  "stamped clk h (a @ b) \<longleftrightarrow> stamped clk h a \<and> stamped clk (h @ a) b"
  by (induction a arbitrary: h) auto

lemma grows_refl: "grows w w"
  by (simp add: grows_def)

lemma grows_trans: "grows w w1 \<Longrightarrow> grows w1 w2 \<Longrightarrow> grows w w2"
  by (auto simp: grows_def)

lemma grows_trace: "grows w w' \<Longrightarrow> trace w' = trace w @ added w w'"
  by (auto simp: grows_def added_def)

lemma grows_heap: "grows w w' \<Longrightarrow> a < next_free w \<Longrightarrow> heap w' a = heap w a"
  by (simp add: grows_def)

lemma grows_next_free: "grows w w' \<Longrightarrow> a < next_free w \<Longrightarrow> a < next_free w'"
  by (simp add: grows_def)

lemma added_refl: "added w w = []"
  by (simp add: added_def)

lemma added_trans: "grows w w1 \<Longrightarrow> grows w1 w2 \<Longrightarrow> added w w2 = added w w1 @ added w1 w2"
  by (auto simp: grows_def added_def)

subsection \<open>The steps of the operations\<close>

lemma persistEvent_eq:
  "persistEvent clk reg a w =
     (settle (store reg (trace w @ [ClockRead (clk (trace w))])
                ((heap w a)\<lparr>persistedAt := Some (clk (trace w))\<rparr>)),
      w\<lparr>heap := (heap w)(next_free w := (heap w a)\<lparr>persistedAt := Some (clk (trace w))\<rparr>),
        next_free := Suc (next_free w),
        trace := trace w @ [ClockRead (clk (trace w)),
                  StoreCall ((heap w a)\<lparr>persistedAt := Some (clk (trace w))\<rparr>)
                    (store reg (trace w @ [ClockRead (clk (trace w))])
                       ((heap w a)\<lparr>persistedAt := Some (clk (trace w))\<rparr>))]\<rparr>)"
  by (simp add: persistEvent_def currentTime_def registryStore_def Let_def)

lemma persistEvent_added:
  "persistEvent clk reg a w = (r, w') \<Longrightarrow>
     added w w' = [ClockRead (clk (trace w)),
                   StoreCall ((heap w a)\<lparr>persistedAt := Some (clk (trace w))\<rparr>)
                     (store reg (trace w @ [ClockRead (clk (trace w))])
                        ((heap w a)\<lparr>persistedAt := Some (clk (trace w))\<rparr>))]
     \<and> r = settle (store reg (trace w @ [ClockRead (clk (trace w))])
                        ((heap w a)\<lparr>persistedAt := Some (clk (trace w))\<rparr>))"
  by (auto simp: persistEvent_eq added_def)

lemma persistEvent_grows: "persistEvent clk reg a w = (r, w') \<Longrightarrow> grows w w'"
  by (auto simp: persistEvent_eq grows_def)

lemma registryStore_grows: "registryStore reg x w = (r, w') \<Longrightarrow> grows w w'"
  by (auto simp: registryStore_def grows_def Let_def)

lemma dispatch_grows: "dispatch app b w = (r, w') \<Longrightarrow> grows w w'"
  by (auto simp: dispatch_def grows_def Let_def)

lemma dispatch_added:
  "dispatch app b w = (r, w') \<Longrightarrow>
     added w w' = [DispatchCall b (map (heap w) b) (boosterEventDispatcher app (trace w) (map (heap w) b))]
     \<and> r = settle (boosterEventDispatcher app (trace w) (map (heap w) b))"
  by (auto simp: dispatch_def added_def Let_def)

text \<open>A transitive relation that every attempt establishes holds across the retry loop.\<close>

lemma retryLoop_rel:
  assumes step: "\<And>w r w'. operation w = (r, w') \<Longrightarrow> R w w'"
    and trans: "\<And>a b c. R a b \<Longrightarrow> R b c \<Longrightarrow> R a c"
  shows "retryLoop operation k n w = (r, w') \<Longrightarrow> R w w'"
proof (induction n arbitrary: w)
  case 0
  then show ?case using step by simp
next
  case (Suc n)
  obtain r1 w1 where op: "operation w = (r1, w1)" by (cases "operation w")
  show ?case
  proof (cases r1)
    case (Inl e)
    show ?thesis
    proof (cases "k e")
      case True
      with Suc.prems op Inl have "retryLoop operation k n w1 = (r, w')" by simp
      then have "R w1 w'" by (rule Suc.IH)
      with step[OF op] show ?thesis by (rule trans)
    next
      case False
      with Suc.prems op Inl have "w' = w1" by simp
      with step[OF op] show ?thesis by simp
    qed
  next
    case (Inr v)
    with Suc.prems op have "w' = w1" by simp
    with step[OF op] show ?thesis by simp
  qed
qed

text \<open>The same for the loop over the batch.\<close>

lemma persistAll_rel:
  assumes step: "\<And>a w r w'. persistEvent clk reg a w = (r, w') \<Longrightarrow> R w w'"
    and refl: "\<And>a. R a a"
    and trans: "\<And>a b c. R a b \<Longrightarrow> R b c \<Longrightarrow> R a c"
  shows "persistAll clk m reg batch w = (r, w') \<Longrightarrow> R w w'"
proof (induction batch arbitrary: w)
  case Nil
  then show ?case by (simp add: refl)
next
  case (Cons a rest)
  obtain r1 w1 where first:
    "retryLoop (persistEvent clk reg a) isOptimisticConcurrencyUnexpectedVersionError (m - 1) w = (r1, w1)"
    by (cases "retryLoop (persistEvent clk reg a) isOptimisticConcurrencyUnexpectedVersionError (m - 1) w")
  have g1: "R w w1" using step trans first by (rule retryLoop_rel)
  show ?case
  proof (cases r1)
    case (Inl e)
    with Cons.prems first have "w' = w1" by (simp add: retryIfError_def)
    with g1 show ?thesis by simp
  next
    case (Inr u)
    with Cons.prems first have "persistAll clk m reg rest w1 = (r, w')"
      by (simp add: retryIfError_def)
    then have "R w1 w'" by (rule Cons.IH)
    with g1 show ?thesis by (rule trans)
  qed
qed

lemma retryLoop_persistEvent_grows:
  "retryLoop (persistEvent clk reg a) k n w = (r, w') \<Longrightarrow> grows w w'"
  by (erule retryLoop_rel[where R = grows, rotated 2]) (auto intro: persistEvent_grows grows_trans)

lemma persistAll_grows:
  "persistAll clk m reg batch w = (r, w') \<Longrightarrow> grows w w'"
  by (erule persistAll_rel[where R = grows, rotated 3])
     (auto intro: persistEvent_grows grows_trans grows_refl)

lemma storeEvents_grows:
  "storeEvents clk m app reg batch w = (r, w') \<Longrightarrow> grows w w'"
  by (auto simp: storeEvents_def split: prod.splits sum.splits
      dest: persistAll_grows dispatch_grows intro: grows_trans)

lemma storeSnapshot_grows:
  "storeSnapshot m reg a w = (r, w') \<Longrightarrow> grows w w'"
  unfolding storeSnapshot_def retryIfError_def
  by (erule retryLoop_rel[where R = grows, rotated 2]) (auto intro: registryStore_grows grows_trans)

lemma readEntityEventsSince_grows:
  "readEntityEventsSince reg tn eid since w = (r, w') \<Longrightarrow> grows w w'"
  by (auto simp: readEntityEventsSince_def registryQuery_def grows_def Let_def)

lemma readEntityLatestSnapshot_grows:
  "readEntityLatestSnapshot reg tn eid w = (r, w') \<Longrightarrow> grows w w'"
  by (auto simp: readEntityLatestSnapshot_def registryQueryLatestSnapshot_def grows_def Let_def
      split: sum.splits snapshot_result.splits)

subsection \<open>Time stamps\<close>

lemma stampedStep_refl: "stampedStep clk w w"
  by (simp add: stampedStep_def grows_refl added_refl)

lemma stampedStep_trans:
  "stampedStep clk w w1 \<Longrightarrow> stampedStep clk w1 w2 \<Longrightarrow> stampedStep clk w w2"
  unfolding stampedStep_def
  using grows_trans[of w w1 w2] added_trans[of w w1 w2] grows_trace[of w w1]
  by (auto simp: stamped_append)

lemma persistEvent_stampedStep:
  "persistEvent clk reg a w = (r, w') \<Longrightarrow> stampedStep clk w w'"
  unfolding stampedStep_def
  by (frule persistEvent_grows, drule persistEvent_added) simp

lemma persistAll_stampedStep:
  "persistAll clk m reg batch w = (r, w') \<Longrightarrow> stampedStep clk w w'"
  by (erule persistAll_rel[where R = "stampedStep clk", rotated 3])
     (auto intro: persistEvent_stampedStep stampedStep_trans stampedStep_refl)

lemma dispatch_stampedStep:
  "dispatch app b w = (r, w') \<Longrightarrow> stampedStep clk w w'"
  unfolding stampedStep_def
  by (frule dispatch_grows, drule dispatch_added) simp

text \<open>
  C5. Every \<^verbatim>\<open>store\<close> call that \<^verbatim>\<open>storeEvents\<close> makes, first attempt or retry, comes
  directly after a reading of the clock taken for that attempt, and the record handed to the
  registry carries that reading as its \<^verbatim>\<open>persistedAt\<close>.
\<close>

theorem storeEvents_persistedAt_fresh:
  "trace (snd (storeEvents clk maxAttempts userApp eventRegistry eventEnvelopes w)) =
     trace w @ added w (snd (storeEvents clk maxAttempts userApp eventRegistry eventEnvelopes w))
   \<and> stamped clk (trace w)
       (added w (snd (storeEvents clk maxAttempts userApp eventRegistry eventEnvelopes w)))"
proof -
  obtain r w' where run:
    "storeEvents clk maxAttempts userApp eventRegistry eventEnvelopes w = (r, w')"
    by (cases "storeEvents clk maxAttempts userApp eventRegistry eventEnvelopes w")
  then have "stampedStep clk w w'"
    by (auto simp: storeEvents_def split: prod.splits sum.splits
        dest: persistAll_stampedStep dispatch_stampedStep[where clk = clk]
        intro: stampedStep_trans)
  with run show ?thesis by (simp add: stampedStep_def grows_trace)
qed

subsection \<open>Order of persistence\<close>

lemma sequential_attempt:
  "sequential bound k (x # rest) result
     ([ClockRead t, StoreCall (x\<lparr>persistedAt := Some t\<rparr>) outcome] @ tr) =
   (k < bound \<and>
    (case outcome of
       None \<Rightarrow> sequential bound 0 rest result tr
     | Some e \<Rightarrow>
         if isOptimisticConcurrencyUnexpectedVersionError e \<and> Suc k < bound
         then sequential bound (Suc k) (x # rest) result tr
         else tr = [] \<and> result = Inl e))"
  by (simp add: withoutPersistedAt_def)

text \<open>
  One envelope under the retry policy, with \<open>n\<close> further attempts allowed after \<open>k\<close>
  failed ones: when it ends well the reader has moved past the envelope and goes on with
  what follows; when it fails the run so far, ending with that failure, is a whole run.
\<close>

lemma retryLoop_persistEvent_sequential:
  "retryLoop (persistEvent clk reg a) isOptimisticConcurrencyUnexpectedVersionError n w = (r, w')
   \<Longrightarrow> a < next_free w \<Longrightarrow> Suc (k + n) = bound \<Longrightarrow>
   (case r of
      Inr u \<Rightarrow> (\<forall>res tr. sequential bound k (heap w a # rest) res (added w w' @ tr)
                       = sequential bound 0 rest res tr)
    | Inl e \<Rightarrow> sequential bound k (heap w a # rest) (Inl e) (added w w'))"
proof (induction n arbitrary: w k)
  case 0
  let ?out = "store reg (trace w @ [ClockRead (clk (trace w))])
                  ((heap w a)\<lparr>persistedAt := Some (clk (trace w))\<rparr>)"
  from persistEvent_added[of clk reg a w r w'] 0(1) have
    add1: "added w w' = [ClockRead (clk (trace w)),
                         StoreCall ((heap w a)\<lparr>persistedAt := Some (clk (trace w))\<rparr>) ?out] @ []"
    and r: "r = settle ?out" by simp_all
  have kb: "k < bound" "\<not> Suc k < bound" using 0(3) by simp_all
  show ?case
  proof (cases ?out)
    case None
    with r add1 kb show ?thesis by (simp add: withoutPersistedAt_def)
  next
    case (Some e)
    with r have "r = Inl e" by simp
    with Some kb show ?thesis unfolding add1 sequential_attempt by simp
  qed
next
  case (Suc n)
  obtain r1 w1 where op: "persistEvent clk reg a w = (r1, w1)"
    by (cases "persistEvent clk reg a w")
  let ?out = "store reg (trace w @ [ClockRead (clk (trace w))])
                  ((heap w a)\<lparr>persistedAt := Some (clk (trace w))\<rparr>)"
  from persistEvent_added[OF op] have
    add1: "added w w1 = [ClockRead (clk (trace w)),
                         StoreCall ((heap w a)\<lparr>persistedAt := Some (clk (trace w))\<rparr>) ?out]"
    and r1: "r1 = settle ?out" by simp_all
  have g1: "grows w w1" using op by (rule persistEvent_grows)
  have kb: "k < bound" "Suc k < bound" using Suc.prems(3) by simp_all
  show ?case
  proof (cases ?out)
    case None
    with r1 Suc.prems(1) op have "r = Inr ()" "w' = w1" by simp_all
    with add1 None kb show ?thesis by (simp add: withoutPersistedAt_def)
  next
    case (Some e)
    show ?thesis
    proof (cases "isOptimisticConcurrencyUnexpectedVersionError e")
      case False
      with Some r1 Suc.prems(1) op have "r = Inl e" "w' = w1" by simp_all
      with add1 Some False kb show ?thesis by (simp add: withoutPersistedAt_def)
    next
      case True
      with Some r1 Suc.prems(1) op have rest:
        "retryLoop (persistEvent clk reg a) isOptimisticConcurrencyUnexpectedVersionError n w1 = (r, w')"
        by simp
      have a1: "a < next_free w1" using g1 Suc.prems(2) by (rule grows_next_free)
      have h1: "heap w1 a = heap w a" using g1 Suc.prems(2) by (rule grows_heap)
      have "Suc (Suc k + n) = bound" using Suc.prems(3) by simp
      from Suc.IH[OF rest a1 this, unfolded h1] have ih:
        "(case r of
            Inr u \<Rightarrow> (\<forall>res tr. sequential bound (Suc k) (heap w a # rest) res (added w1 w' @ tr)
                       = sequential bound 0 rest res tr)
          | Inl e \<Rightarrow> sequential bound (Suc k) (heap w a # rest) (Inl e) (added w1 w'))" .
      have g2: "grows w1 w'" using rest by (rule retryLoop_persistEvent_grows)
      have add: "added w w' = added w w1 @ added w1 w'" using g1 g2 by (rule added_trans)
      have step: "\<And>res tr. sequential bound k (heap w a # rest) res (added w w1 @ tr)
                     = sequential bound (Suc k) (heap w a # rest) res tr"
        unfolding add1 sequential_attempt using Some True kb by simp
      show ?thesis
      proof (cases r)
        case (Inl e')
        with ih have "sequential bound (Suc k) (heap w a # rest) (Inl e') (added w1 w')" by simp
        with step[of "Inl e'" "added w1 w'"] add Inl show ?thesis by simp
      next
        case (Inr u)
        with ih have "\<And>res tr. sequential bound (Suc k) (heap w a # rest) res (added w1 w' @ tr)
                       = sequential bound 0 rest res tr" by simp
        with step add Inr show ?thesis by simp
      qed
    qed
  qed
qed

lemma persistAll_sequential:
  "persistAll clk m reg batch w = (r, w') \<Longrightarrow> \<forall>a\<in>set batch. a < next_free w \<Longrightarrow>
   (case r of
      Inr u \<Rightarrow> (\<forall>res tr. sequential (Suc (m - 1)) 0 (map (heap w) batch) res (added w w' @ tr)
                       = sequential (Suc (m - 1)) 0 [] res tr)
    | Inl e \<Rightarrow> sequential (Suc (m - 1)) 0 (map (heap w) batch) (Inl e) (added w w'))"
proof (induction batch arbitrary: w)
  case Nil
  then show ?case by (auto simp: added_refl)
next
  case (Cons a rest)
  let ?isC = isOptimisticConcurrencyUnexpectedVersionError
  obtain r1 w1 where first: "retryLoop (persistEvent clk reg a) ?isC (m - 1) w = (r1, w1)"
    by (cases "retryLoop (persistEvent clk reg a) ?isC (m - 1) w")
  have g1: "grows w w1" using first by (rule retryLoop_persistEvent_grows)
  have a: "a < next_free w" using Cons.prems(2) by simp
  have same: "map (heap w1) rest = map (heap w) rest"
    using Cons.prems(2) g1 by (simp add: grows_heap)
  have alloc1: "\<forall>a\<in>set rest. a < next_free w1"
    using Cons.prems(2) g1 by (simp add: grows_next_free)
  from retryLoop_persistEvent_sequential[OF first a, of 0 "Suc (m - 1)" "map (heap w) rest"]
  have one:
    "(case r1 of
        Inr u \<Rightarrow> (\<forall>res tr. sequential (Suc (m - 1)) 0 (heap w a # map (heap w) rest) res (added w w1 @ tr)
                       = sequential (Suc (m - 1)) 0 (map (heap w) rest) res tr)
      | Inl e \<Rightarrow> sequential (Suc (m - 1)) 0 (heap w a # map (heap w) rest) (Inl e) (added w w1))"
    by simp
  show ?case
  proof (cases r1)
    case (Inl e)
    with Cons.prems(1) first have "r = Inl e" "w' = w1" by (simp_all add: retryIfError_def)
    with one Inl show ?thesis by simp
  next
    case (Inr u)
    with Cons.prems(1) first have rest: "persistAll clk m reg rest w1 = (r, w')"
      by (simp add: retryIfError_def)
    have g2: "grows w1 w'" using rest by (rule persistAll_grows)
    have add: "added w w' = added w w1 @ added w1 w'" using g1 g2 by (rule added_trans)
    from Cons.IH[OF rest alloc1, unfolded same] have ih:
      "(case r of
          Inr u \<Rightarrow> (\<forall>res tr. sequential (Suc (m - 1)) 0 (map (heap w) rest) res (added w1 w' @ tr)
                       = sequential (Suc (m - 1)) 0 [] res tr)
        | Inl e \<Rightarrow> sequential (Suc (m - 1)) 0 (map (heap w) rest) (Inl e) (added w1 w'))" .
    from one Inr have step:
      "\<And>res tr. sequential (Suc (m - 1)) 0 (heap w a # map (heap w) rest) res (added w w1 @ tr)
                       = sequential (Suc (m - 1)) 0 (map (heap w) rest) res tr" by simp
    show ?thesis
    proof (cases r)
      case (Inl e)
      with ih step[of "Inl e" "added w1 w'"] add show ?thesis by simp
    next
      case (Inr u')
      with ih step add show ?thesis by simp
    qed
  qed
qed

lemma allocated_iff: "allocated w refs \<longleftrightarrow> (\<forall>a\<in>set refs. a < next_free w)"
  by (simp add: allocated_def list_all_iff)

lemma storedRecords_single:
  "storedRecords [DispatchCall refs seen outcome] = []"
  "storedRecords [ClockRead t] = []"
  "storedRecords [StoreCall r outcome] = (if outcome = None then [r] else [])"
  by (simp_all add: storedRecords_def)

lemma storedRecords_Cons:
  "storedRecords (ClockRead t # tr) = storedRecords tr"
  "storedRecords (StoreCall x outcome # tr) =
     (if outcome = None then x # storedRecords tr else storedRecords tr)"
  "storedRecords (DispatchCall refs seen outcome # tr) = storedRecords tr"
  by (simp_all add: storedRecords_def)

lemma max_attempts: "Suc (m - 1) = max 1 m"
  by (cases m) simp_all

lemma retryLoop_persistEvent_stored:
  "retryLoop (persistEvent clk reg a) k n w = (r, w') \<Longrightarrow> a < next_free w \<Longrightarrow>
     dispatchCalls (added w w') = [] \<and>
     map withoutPersistedAt (storedRecords (added w w')) =
       (case r of Inr u \<Rightarrow> [withoutPersistedAt (heap w a)] | Inl e \<Rightarrow> [])"
proof (induction n arbitrary: w)
  case 0
  from persistEvent_added[of clk reg a w r w'] 0 show ?case
    by (cases "store reg (trace w @ [ClockRead (clk (trace w))])
                  ((heap w a)\<lparr>persistedAt := Some (clk (trace w))\<rparr>)")
       (simp_all add: withoutPersistedAt_def storedRecords_def)
next
  case (Suc n)
  obtain r1 w1 where op: "persistEvent clk reg a w = (r1, w1)"
    by (cases "persistEvent clk reg a w")
  let ?out = "store reg (trace w @ [ClockRead (clk (trace w))])
                  ((heap w a)\<lparr>persistedAt := Some (clk (trace w))\<rparr>)"
  from persistEvent_added[OF op] have
    add1: "added w w1 = [ClockRead (clk (trace w)),
                         StoreCall ((heap w a)\<lparr>persistedAt := Some (clk (trace w))\<rparr>) ?out]"
    and r1: "r1 = settle ?out" by simp_all
  have g1: "grows w w1" using op by (rule persistEvent_grows)
  show ?case
  proof (cases "\<exists>e. ?out = Some e \<and> k e")
    case False
    with r1 Suc.prems(1) op have "r = r1" "w' = w1" by (cases ?out; simp)+
    with add1 r1 show ?thesis
      by (cases ?out) (simp_all add: withoutPersistedAt_def storedRecords_def)
  next
    case True
    then obtain e where e: "?out = Some e" "k e" by blast
    with r1 Suc.prems(1) op have rest:
      "retryLoop (persistEvent clk reg a) k n w1 = (r, w')" by simp
    have a1: "a < next_free w1" using g1 Suc.prems(2) by (rule grows_next_free)
    have h1: "heap w1 a = heap w a" using g1 Suc.prems(2) by (rule grows_heap)
    have g2: "grows w1 w'" using rest by (rule retryLoop_persistEvent_grows)
    have add: "added w w' = added w w1 @ added w1 w'" using g1 g2 by (rule added_trans)
    from Suc.IH[OF rest a1, unfolded h1] add add1 e show ?thesis
      by (simp add: storedRecords_append dispatchCalls_append storedRecords_def)
  qed
qed

lemma persistAll_stored:
  "persistAll clk m reg batch w = (r, w') \<Longrightarrow> \<forall>a\<in>set batch. a < next_free w \<Longrightarrow>
     dispatchCalls (added w w') = [] \<and>
     map withoutPersistedAt (storedRecords (added w w')) =
       map (\<lambda>a. withoutPersistedAt (heap w a))
         (take (length (storedRecords (added w w'))) batch) \<and>
     (case r of
        Inr u \<Rightarrow> length (storedRecords (added w w')) = length batch
      | Inl e \<Rightarrow> length (storedRecords (added w w')) < length batch)"
proof (induction batch arbitrary: w)
  case Nil
  then show ?case by (auto simp: added_refl storedRecords_def)
next
  case (Cons a rest)
  let ?isC = isOptimisticConcurrencyUnexpectedVersionError
  obtain r1 w1 where first: "retryLoop (persistEvent clk reg a) ?isC (m - 1) w = (r1, w1)"
    by (cases "retryLoop (persistEvent clk reg a) ?isC (m - 1) w")
  have g1: "grows w w1" using first by (rule retryLoop_persistEvent_grows)
  have a: "a < next_free w" using Cons.prems(2) by simp
  have same: "map (\<lambda>a. withoutPersistedAt (heap w1 a)) (take j rest)
            = map (\<lambda>a. withoutPersistedAt (heap w a)) (take j rest)" for j
    using Cons.prems(2) g1 by (auto simp: grows_heap dest: in_set_takeD)
  have alloc1: "\<forall>a\<in>set rest. a < next_free w1"
    using Cons.prems(2) g1 by (simp add: grows_next_free)
  note one = retryLoop_persistEvent_stored[OF first a]
  show ?case
  proof (cases r1)
    case (Inl e)
    with Cons.prems(1) first have "r = Inl e" "w' = w1" by (simp_all add: retryIfError_def)
    with one Inl show ?thesis by simp
  next
    case (Inr u)
    with Cons.prems(1) first have rest: "persistAll clk m reg rest w1 = (r, w')"
      by (simp add: retryIfError_def)
    have g2: "grows w1 w'" using rest by (rule persistAll_grows)
    have add: "added w w' = added w w1 @ added w1 w'" using g1 g2 by (rule added_trans)
    from one Inr have s1: "map withoutPersistedAt (storedRecords (added w w1))
                          = [withoutPersistedAt (heap w a)]"
      and d1: "dispatchCalls (added w w1) = []" by simp_all
    from s1 have l1: "length (storedRecords (added w w1)) = 1"
      by (metis length_map length_Cons list.size(3) One_nat_def)
    note ih = Cons.IH[OF rest alloc1, unfolded same]
    show ?thesis
      using ih s1 d1 l1 unfolding add
      by (cases r) (simp_all add: storedRecords_append dispatchCalls_append)
  qed
qed

text \<open>The definitions that a concrete run unfolds.\<close>

lemmas demo_defs = storeEvents_def retryIfError_def persistEvent_eq dispatch_def
         demoWorld_def demoClock_def deliveringApp_def flakyRegistry_def
         demoConflict_def demoEnvelope_def added_def eval_nat_numeral

text \<open>
  C1. The run of \<^verbatim>\<open>storeEvents\<close>, its result and what it adds to the trace, is a whole
  run as \<open>sequential\<close> reads it, each envelope having the attempts of the retry policy to
  itself. So every \<^verbatim>\<open>store\<close> call carries the first envelope of the batch that is not
  yet stored, and the call for the next envelope is made only after a call for the one
  before has resolved; a conflict is followed by another attempt on the same envelope as long
  as that envelope has attempts left, whichever place it has in the batch; the run stops, with
  the error as its result, at the first failure that is not a conflict or that uses up an
  envelope's attempts; and the dispatcher is called once all are stored. The records stored
  are the envelopes of an initial part of the batch, in the order of the batch.
\<close>

theorem storeEvents_sequential:
  assumes "allocated w eventEnvelopes"
  shows "trace (snd (storeEvents clk maxAttempts userApp eventRegistry eventEnvelopes w)) =
           trace w @ added w (snd (storeEvents clk maxAttempts userApp eventRegistry eventEnvelopes w))
       \<and> sequential (max 1 maxAttempts) 0 (map (heap w) eventEnvelopes)
           (fst (storeEvents clk maxAttempts userApp eventRegistry eventEnvelopes w))
           (added w (snd (storeEvents clk maxAttempts userApp eventRegistry eventEnvelopes w)))
       \<and> map withoutPersistedAt
           (storedRecords (added w (snd (storeEvents clk maxAttempts userApp eventRegistry eventEnvelopes w))))
         = map (\<lambda>a. withoutPersistedAt (heap w a))
             (take (length (storedRecords
                      (added w (snd (storeEvents clk maxAttempts userApp eventRegistry eventEnvelopes w)))))
                eventEnvelopes)"
proof -
  let ?run = "storeEvents clk maxAttempts userApp eventRegistry eventEnvelopes w"
  from assms have alloc: "\<forall>a\<in>set eventEnvelopes. a < next_free w" by (simp add: allocated_iff)
  obtain r1 w1 where pa: "persistAll clk maxAttempts eventRegistry eventEnvelopes w = (r1, w1)"
    by (cases "persistAll clk maxAttempts eventRegistry eventEnvelopes w")
  have g1: "grows w w1" using pa by (rule persistAll_grows)
  note seq = persistAll_sequential[OF pa alloc, unfolded max_attempts]
  note sto = persistAll_stored[OF pa alloc]
  have tr: "trace (snd ?run) = trace w @ added w (snd ?run)"
    by (rule grows_trace) (rule storeEvents_grows[OF surjective_pairing])
  show ?thesis
  proof (cases r1)
    case (Inl e)
    with pa have "?run = (Inl e, w1)" by (simp add: storeEvents_def)
    with tr seq sto Inl show ?thesis by simp
  next
    case (Inr u)
    obtain r2 w2 where di: "dispatch userApp eventEnvelopes w1 = (r2, w2)"
      by (cases "dispatch userApp eventEnvelopes w1")
    with pa Inr have run: "?run = (r2, w2)" by (simp add: storeEvents_def)
    have g2: "grows w1 w2" using di by (rule dispatch_grows)
    have add: "added w w2 = added w w1 @ added w1 w2" using g1 g2 by (rule added_trans)
    from dispatch_added[OF di] seq sto Inr tr show ?thesis
      by (simp add: run add storedRecords_append storedRecords_single)
  qed
qed

text \<open>
  A run on three envelopes in which the registry rejects the third once: the third is tried
  again and stored, and the run is accepted. The same run cut off after that one conflict,
  with the conflict as its result, is not.
\<close>

theorem storeEvents_sequential_witness:
  "allocated demoWorld [0, 1, 2]
   \<and> sequential (max 1 3) 0 (map (heap demoWorld) [0, 1, 2])
       (fst (storeEvents demoClock 3 deliveringApp (hesitantRegistry ''t3'' 3) [0, 1, 2] demoWorld))
       (added demoWorld (snd (storeEvents demoClock 3 deliveringApp
          (hesitantRegistry ''t3'' 3) [0, 1, 2] demoWorld)))
   \<and> fst (storeEvents demoClock 3 deliveringApp (hesitantRegistry ''t3'' 3) [0, 1, 2] demoWorld)
       = Inr ()
   \<and> storeCalls (added demoWorld (snd (storeEvents demoClock 3 deliveringApp
          (hesitantRegistry ''t3'' 3) [0, 1, 2] demoWorld)))
     = [((demoEnvelope ''t1'')\<lparr>persistedAt := Some ''T''\<rparr>, None),
        ((demoEnvelope ''t2'')\<lparr>persistedAt := Some ''TTT''\<rparr>, None),
        ((demoEnvelope ''t3'')\<lparr>persistedAt := Some ''TTTTT''\<rparr>, Some demoConflict),
        ((demoEnvelope ''t3'')\<lparr>persistedAt := Some ''TTTTTTT''\<rparr>, None)]
   \<and> \<not> sequential (max 1 3) 0 (map (heap demoWorld) [0, 1, 2]) (Inl demoConflict)
         (take 6 (added demoWorld (snd (storeEvents demoClock 3 deliveringApp
            (hesitantRegistry ''t3'' 3) [0, 1, 2] demoWorld))))"
proof -
  let ?run = "storeEvents demoClock 3 deliveringApp (hesitantRegistry ''t3'' 3) [0, 1, 2] demoWorld"
  have alloc: "allocated demoWorld [0, 1, 2]"
    by (simp add: allocated_def demoWorld_def)
  have res: "fst ?run = Inr ()"
    by (simp add: demo_defs hesitantRegistry_def)
  have calls: "storeCalls (added demoWorld (snd ?run))
     = [((demoEnvelope ''t1'')\<lparr>persistedAt := Some ''T''\<rparr>, None),
        ((demoEnvelope ''t2'')\<lparr>persistedAt := Some ''TTT''\<rparr>, None),
        ((demoEnvelope ''t3'')\<lparr>persistedAt := Some ''TTTTT''\<rparr>, Some demoConflict),
        ((demoEnvelope ''t3'')\<lparr>persistedAt := Some ''TTTTTTT''\<rparr>, None)]"
    by (simp add: demo_defs hesitantRegistry_def)
  have cut: "\<not> sequential (max 1 3) 0 (map (heap demoWorld) [0, 1, 2]) (Inl demoConflict)
         (take 6 (added demoWorld (snd ?run)))"
    by (simp add: demo_defs hesitantRegistry_def withoutPersistedAt_def)
  from storeEvents_sequential[OF alloc, of demoClock 3 deliveringApp "hesitantRegistry ''t3'' 3"]
    alloc res calls cut
  show ?thesis by blast
qed

text \<open>
  The time stamps of a run with a retry: the rejected attempt on the first envelope and the
  attempt that follows it carry two different readings of the clock.
\<close>

theorem storeEvents_persistedAt_fresh_witness:
  "stamped demoClock (trace demoWorld)
     (added demoWorld (snd (storeEvents demoClock 3 deliveringApp
        (flakyRegistry 1 demoConflict) [0, 1] demoWorld)))
   \<and> storeCalls (added demoWorld (snd (storeEvents demoClock 3 deliveringApp
          (flakyRegistry 1 demoConflict) [0, 1] demoWorld)))
     = [((demoEnvelope ''t1'')\<lparr>persistedAt := Some ''T''\<rparr>, Some demoConflict),
        ((demoEnvelope ''t1'')\<lparr>persistedAt := Some ''TTT''\<rparr>, None),
        ((demoEnvelope ''t2'')\<lparr>persistedAt := Some ''TTTTT''\<rparr>, None)]"
proof -
  have calls: "storeCalls (added demoWorld (snd (storeEvents demoClock 3 deliveringApp
          (flakyRegistry 1 demoConflict) [0, 1] demoWorld)))
     = [((demoEnvelope ''t1'')\<lparr>persistedAt := Some ''T''\<rparr>, Some demoConflict),
        ((demoEnvelope ''t1'')\<lparr>persistedAt := Some ''TTT''\<rparr>, None),
        ((demoEnvelope ''t2'')\<lparr>persistedAt := Some ''TTTTT''\<rparr>, None)]"
    by (simp add: demo_defs)
  from storeEvents_persistedAt_fresh[of demoClock 3 deliveringApp "flakyRegistry 1 demoConflict"
      "[0, 1]" demoWorld] calls
  show ?thesis by blast
qed

subsection \<open>Dispatch after success\<close>

text \<open>
  C2. When \<^verbatim>\<open>storeEvents\<close> succeeds, what it added to the trace ends with the one call
  of the dispatcher; before that call every envelope of the batch was stored, in the order
  of the batch; the dispatcher was handed the caller's batch, whose envelopes were as the
  caller submitted them (the third component of the call is their contents before
  \<^verbatim>\<open>storeEvents\<close> began), so without \<^verbatim>\<open>persistedAt\<close> if they had none.
\<close>

theorem storeEvents_dispatch_after_success:
  assumes "allocated w eventEnvelopes"
    and "fst (storeEvents clk maxAttempts userApp eventRegistry eventEnvelopes w) = Inr ()"
  shows "\<exists>before.
           added w (snd (storeEvents clk maxAttempts userApp eventRegistry eventEnvelopes w))
             = before @ [DispatchCall eventEnvelopes (map (heap w) eventEnvelopes) None]
         \<and> dispatchCalls before = []
         \<and> map withoutPersistedAt (storedRecords before)
             = map (\<lambda>a. withoutPersistedAt (heap w a)) eventEnvelopes
         \<and> dispatchCalls
             (added w (snd (storeEvents clk maxAttempts userApp eventRegistry eventEnvelopes w)))
             = [(eventEnvelopes, map (heap w) eventEnvelopes, None)]"
proof -
  let ?run = "storeEvents clk maxAttempts userApp eventRegistry eventEnvelopes w"
  from assms(1) have alloc: "\<forall>a\<in>set eventEnvelopes. a < next_free w"
    by (simp add: allocated_iff)
  obtain r1 w1 where pa: "persistAll clk maxAttempts eventRegistry eventEnvelopes w = (r1, w1)"
    by (cases "persistAll clk maxAttempts eventRegistry eventEnvelopes w")
  have g1: "grows w w1" using pa by (rule persistAll_grows)
  note sto = persistAll_stored[OF pa alloc]
  from assms(2) pa have r1: "r1 = Inr ()"
    by (cases r1) (simp_all add: storeEvents_def)
  obtain r2 w2 where di: "dispatch userApp eventEnvelopes w1 = (r2, w2)"
    by (cases "dispatch userApp eventEnvelopes w1")
  with pa r1 have run: "?run = (r2, w2)" by (simp add: storeEvents_def)
  have g2: "grows w1 w2" using di by (rule dispatch_grows)
  have add: "added w w2 = added w w1 @ added w1 w2" using g1 g2 by (rule added_trans)
  have same: "map (heap w1) eventEnvelopes = map (heap w) eventEnvelopes"
    using alloc g1 by (simp add: grows_heap)
  from dispatch_added[OF di] assms(2) run have
    out: "boosterEventDispatcher userApp (trace w1) (map (heap w) eventEnvelopes) = None"
    unfolding same by (cases "boosterEventDispatcher userApp (trace w1) (map (heap w) eventEnvelopes)") simp_all
  from dispatch_added[OF di] out have add2:
    "added w1 w2 = [DispatchCall eventEnvelopes (map (heap w) eventEnvelopes) None]"
    unfolding same by simp
  have "added w (snd ?run) = added w w1 @ [DispatchCall eventEnvelopes (map (heap w) eventEnvelopes) None]"
    using run add add2 by simp
  moreover have "dispatchCalls (added w w1) = []" using sto by simp
  moreover have "map withoutPersistedAt (storedRecords (added w w1))
             = map (\<lambda>a. withoutPersistedAt (heap w a)) eventEnvelopes"
    using sto r1 by simp
  moreover have "dispatchCalls (added w (snd ?run))
             = [(eventEnvelopes, map (heap w) eventEnvelopes, None)]"
    using run add add2 sto by (simp add: dispatchCalls_append)
  ultimately show ?thesis by blast
qed

theorem storeEvents_dispatch_after_success_witness:
  "allocated demoWorld [0, 1]
   \<and> fst (storeEvents demoClock 3 deliveringApp (flakyRegistry 1 demoConflict) [0, 1] demoWorld)
       = Inr ()
   \<and> dispatchCalls (added demoWorld (snd (storeEvents demoClock 3 deliveringApp
          (flakyRegistry 1 demoConflict) [0, 1] demoWorld)))
       = [([0, 1], [demoEnvelope ''t1'', demoEnvelope ''t2''], None)]"
proof -
  have alloc: "allocated demoWorld [0, 1]"
    by (simp add: allocated_def demoWorld_def)
  have ok: "fst (storeEvents demoClock 3 deliveringApp (flakyRegistry 1 demoConflict) [0, 1] demoWorld)
       = Inr ()"
    by (simp add: demo_defs)
  have heap: "map (heap demoWorld) [0, 1] = [demoEnvelope ''t1'', demoEnvelope ''t2'']"
    by (simp add: demoWorld_def)
  from storeEvents_dispatch_after_success[OF alloc ok] alloc ok
  show ?thesis unfolding heap by blast
qed

subsection \<open>A batch that fails part of the way\<close>

text \<open>An envelope whose every \<^verbatim>\<open>store\<close> is rejected with a conflict uses up its attempts.\<close>

lemma retryLoop_persistEvent_always_conflict:
  assumes rejects: "\<forall>h t. \<exists>c. store reg (base @ h) (x\<lparr>persistedAt := Some t\<rparr>) = Some c
                      \<and> isOptimisticConcurrencyUnexpectedVersionError c"
  shows "retryLoop (persistEvent clk reg a) isOptimisticConcurrencyUnexpectedVersionError n w = (r, w')
     \<Longrightarrow> a < next_free w \<Longrightarrow> heap w a = x \<Longrightarrow> \<exists>h. trace w = base @ h \<Longrightarrow>
     (\<exists>c. r = Inl c \<and> isOptimisticConcurrencyUnexpectedVersionError c)
     \<and> length (storeCalls (added w w')) = Suc n
     \<and> list_all (\<lambda>c. withoutPersistedAt (fst c) = withoutPersistedAt x \<and> snd c \<noteq> None)
          (storeCalls (added w w'))
     \<and> dispatchCalls (added w w') = []
     \<and> storedRecords (added w w') = []"
proof (induction n arbitrary: w)
  case 0
  from 0(4) obtain h where h: "trace w = base @ h" by blast
  from rejects obtain c where
    c: "store reg (base @ (h @ [ClockRead (clk (trace w))])) (x\<lparr>persistedAt := Some (clk (trace w))\<rparr>) = Some c"
       "isOptimisticConcurrencyUnexpectedVersionError c" by blast
  from persistEvent_added[of clk reg a w r w'] 0(1) c h 0(3) show ?case
    by (simp add: withoutPersistedAt_def storedRecords_def)
next
  case (Suc n)
  from Suc.prems(4) obtain h where h: "trace w = base @ h" by blast
  from rejects obtain c where
    c: "store reg (base @ (h @ [ClockRead (clk (trace w))])) (x\<lparr>persistedAt := Some (clk (trace w))\<rparr>) = Some c"
       "isOptimisticConcurrencyUnexpectedVersionError c" by blast
  obtain r1 w1 where op: "persistEvent clk reg a w = (r1, w1)"
    by (cases "persistEvent clk reg a w")
  from persistEvent_added[OF op] c h Suc.prems(3) have
    add1: "added w w1 = [ClockRead (clk (trace w)),
                         StoreCall (x\<lparr>persistedAt := Some (clk (trace w))\<rparr>) (Some c)]"
    and r1: "r1 = Inl c" by simp_all
  have g1: "grows w w1" using op by (rule persistEvent_grows)
  from Suc.prems(1) op r1 c(2) have rest:
    "retryLoop (persistEvent clk reg a) isOptimisticConcurrencyUnexpectedVersionError n w1 = (r, w')"
    by simp
  have a1: "a < next_free w1" using g1 Suc.prems(2) by (rule grows_next_free)
  have h1: "heap w1 a = x" using grows_heap[OF g1 Suc.prems(2)] Suc.prems(3) by simp
  have t1: "\<exists>h. trace w1 = base @ h" using grows_trace[OF g1] h by simp
  have g2: "grows w1 w'" using rest by (rule retryLoop_persistEvent_grows)
  have add: "added w w' = added w w1 @ added w1 w'" using g1 g2 by (rule added_trans)
  from Suc.IH[OF rest a1 h1 t1] show ?case
    unfolding add add1
    by (simp add: storedRecords_Cons withoutPersistedAt_def)
qed

text \<open>
  C3. A batch of three envelopes in which the first is stored and every \<^verbatim>\<open>store\<close> of
  the second is rejected with a conflict: \<^verbatim>\<open>storeEvents\<close> fails with a conflict error;
  the first envelope is the one record stored, and nothing is done to it afterwards; after
  it, the registry sees exactly as many calls as one envelope is allowed, all of them
  rejected calls for the second envelope, so none for the third; the dispatcher is not
  called.
\<close>

theorem storeEvents_partial_batch:
  assumes "allocated w [e1, e2, e3]"
    and "retryIfError (persistEvent clk eventRegistry e1)
           isOptimisticConcurrencyUnexpectedVersionError maxAttempts w = (Inr (), w1)"
    and "\<forall>h t. \<exists>c. store eventRegistry (trace w1 @ h) ((heap w e2)\<lparr>persistedAt := Some t\<rparr>) = Some c
                  \<and> isOptimisticConcurrencyUnexpectedVersionError c"
    and "storeEvents clk maxAttempts userApp eventRegistry [e1, e2, e3] w = (r, w')"
  shows "(\<exists>c. r = Inl c \<and> isOptimisticConcurrencyUnexpectedVersionError c)
       \<and> added w w' = added w w1 @ added w1 w'
       \<and> map withoutPersistedAt (storedRecords (added w w1)) = [withoutPersistedAt (heap w e1)]
       \<and> storedRecords (added w1 w') = []
       \<and> length (storeCalls (added w1 w')) = max 1 maxAttempts
       \<and> list_all (\<lambda>c. withoutPersistedAt (fst c) = withoutPersistedAt (heap w e2) \<and> snd c \<noteq> None)
            (storeCalls (added w1 w'))
       \<and> dispatchCalls (added w w') = []"
proof -
  let ?isC = isOptimisticConcurrencyUnexpectedVersionError
  from assms(1) have alloc: "e1 < next_free w" "e2 < next_free w" "e3 < next_free w"
    by (simp_all add: allocated_def)
  from assms(2) have first: "retryLoop (persistEvent clk eventRegistry e1) ?isC (maxAttempts - 1) w = (Inr (), w1)"
    by (simp add: retryIfError_def)
  have g1: "grows w w1" using first by (rule retryLoop_persistEvent_grows)
  note one = retryLoop_persistEvent_stored[OF first alloc(1)]
  obtain r2 w2 where second:
    "retryLoop (persistEvent clk eventRegistry e2) ?isC (maxAttempts - 1) w1 = (r2, w2)"
    by (cases "retryLoop (persistEvent clk eventRegistry e2) ?isC (maxAttempts - 1) w1")
  have a2: "e2 < next_free w1" using g1 alloc(2) by (rule grows_next_free)
  have h2: "heap w1 e2 = heap w e2" using g1 alloc(2) by (rule grows_heap)
  have t2: "\<exists>h. trace w1 = trace w1 @ h" by simp
  note two = retryLoop_persistEvent_always_conflict[OF assms(3) second a2 h2 t2]
  then obtain c where c: "r2 = Inl c" "?isC c" by blast
  from assms(4) first second c have run: "r = Inl c" "w' = w2"
    by (simp_all add: storeEvents_def retryIfError_def)
  have g2: "grows w1 w2" using second by (rule retryLoop_persistEvent_grows)
  have add: "added w w2 = added w w1 @ added w1 w2" using g1 g2 by (rule added_trans)
  from one two c run add show ?thesis
    by (simp add: dispatchCalls_append max_attempts)
qed

theorem storeEvents_partial_batch_witness:
  "allocated demoWorld [0, 1, 2]
   \<and> fst (storeEvents demoClock 3 deliveringApp (stubbornRegistry ''t2'') [0, 1, 2] demoWorld)
       = Inl demoConflict
   \<and> storeCalls (added demoWorld (snd (storeEvents demoClock 3 deliveringApp
        (stubbornRegistry ''t2'') [0, 1, 2] demoWorld)))
     = [((demoEnvelope ''t1'')\<lparr>persistedAt := Some ''T''\<rparr>, None),
        ((demoEnvelope ''t2'')\<lparr>persistedAt := Some ''TTT''\<rparr>, Some demoConflict),
        ((demoEnvelope ''t2'')\<lparr>persistedAt := Some ''TTTTT''\<rparr>, Some demoConflict),
        ((demoEnvelope ''t2'')\<lparr>persistedAt := Some ''TTTTTTT''\<rparr>, Some demoConflict)]
   \<and> dispatchCalls (added demoWorld (snd (storeEvents demoClock 3 deliveringApp
        (stubbornRegistry ''t2'') [0, 1, 2] demoWorld))) = []"
proof -
  let ?reg = "stubbornRegistry ''t2''"
  let ?run = "storeEvents demoClock 3 deliveringApp ?reg [0, 1, 2] demoWorld"
  let ?first = "retryIfError (persistEvent demoClock ?reg 0)
                  isOptimisticConcurrencyUnexpectedVersionError 3 demoWorld"
  have alloc: "allocated demoWorld [0, 1, 2]"
    by (simp add: allocated_def demoWorld_def)
  have first: "?first = (Inr (), snd ?first)"
    by (simp add: demo_defs stubbornRegistry_def)
  have rejects: "\<forall>h t. \<exists>c. store ?reg (trace (snd ?first) @ h)
                    ((heap demoWorld 1)\<lparr>persistedAt := Some t\<rparr>) = Some c
                  \<and> isOptimisticConcurrencyUnexpectedVersionError c"
    by (simp add: stubbornRegistry_def demoWorld_def demoEnvelope_def demoConflict_def)
  have calls: "storeCalls (added demoWorld (snd ?run))
     = [((demoEnvelope ''t1'')\<lparr>persistedAt := Some ''T''\<rparr>, None),
        ((demoEnvelope ''t2'')\<lparr>persistedAt := Some ''TTT''\<rparr>, Some demoConflict),
        ((demoEnvelope ''t2'')\<lparr>persistedAt := Some ''TTTTT''\<rparr>, Some demoConflict),
        ((demoEnvelope ''t2'')\<lparr>persistedAt := Some ''TTTTTTT''\<rparr>, Some demoConflict)]"
    by (simp add: demo_defs stubbornRegistry_def)
  have res: "fst ?run = Inl demoConflict"
    by (simp add: demo_defs stubbornRegistry_def)
  from storeEvents_partial_batch[OF alloc first rejects surjective_pairing]
  have "(\<exists>c. fst ?run = Inl c \<and> isOptimisticConcurrencyUnexpectedVersionError c)
        \<and> dispatchCalls (added demoWorld (snd ?run)) = []" by blast
  with alloc calls res show ?thesis by blast
qed

subsection \<open>The bound on attempts\<close>

lemma failsThenSucceeds_later:
  "failsThenSucceeds reg c k base \<Longrightarrow>
     failsThenSucceeds reg c (k - length (storeCalls h)) (base @ h)"
  unfolding failsThenSucceeds_def
  by (auto simp: storeCalls_append)

lemma registryStore_added:
  "registryStore reg x w = (r, w') \<Longrightarrow>
     added w w' = [StoreCall x (store reg (trace w) x)] \<and> r = settle (store reg (trace w) x)"
  by (auto simp: registryStore_def added_def Let_def)

text \<open>
  The retry loop over any operation that makes one \<^verbatim>\<open>store\<close> call and settles as that
  call does, against a stub that fails \<open>k\<close> times.
\<close>

lemma retryLoop_failsThenSucceeds:
  assumes op: "\<And>w r w'. operation w = (r, w') \<Longrightarrow>
                 grows w w' \<and>
                 (\<exists>pre x. added w w' = pre @ [StoreCall x (store reg (trace w @ pre) x)]
                          \<and> storeCalls pre = [] \<and> dispatchCalls pre = []
                          \<and> r = settle (store reg (trace w @ pre) x))"
    and c: "isOptimisticConcurrencyUnexpectedVersionError c"
  shows "failsThenSucceeds reg c k (trace w) \<Longrightarrow>
         retryLoop operation isOptimisticConcurrencyUnexpectedVersionError n w = (r, w') \<Longrightarrow>
         r = (if k \<le> n then Inr () else Inl c)
         \<and> length (storeCalls (added w w')) = min (Suc k) (Suc n)
         \<and> dispatchCalls (added w w') = []
         \<and> grows w w'
         \<and> failsThenSucceeds reg c (k - Suc n) (trace w')"
proof (induction n arbitrary: w k)
  case 0
  from op[OF 0(2)[simplified]] obtain pre x where
    g: "grows w w'" and
    a: "added w w' = pre @ [StoreCall x (store reg (trace w @ pre) x)]"
       "storeCalls pre = []" "dispatchCalls pre = []" "r = settle (store reg (trace w @ pre) x)"
    by blast
  from 0(1) a(2) have out: "store reg (trace w @ pre) x = (if 0 < k then Some c else None)"
    by (simp add: failsThenSucceeds_def)
  have later: "failsThenSucceeds reg c (k - length (storeCalls (added w w'))) (trace w')"
    using failsThenSucceeds_later[OF 0(1), of "added w w'"] grows_trace[OF g] by simp
  from a out g later show ?case
    by (auto simp: storeCalls_append dispatchCalls_append)
next
  case (Suc n)
  obtain r1 w1 where o1: "operation w = (r1, w1)" by (cases "operation w")
  from op[OF o1] obtain pre x where
    g1: "grows w w1" and
    a: "added w w1 = pre @ [StoreCall x (store reg (trace w @ pre) x)]"
       "storeCalls pre = []" "dispatchCalls pre = []" "r1 = settle (store reg (trace w @ pre) x)"
    by blast
  from Suc.prems(1) a(2) have out: "store reg (trace w @ pre) x = (if 0 < k then Some c else None)"
    by (simp add: failsThenSucceeds_def)
  have calls1: "length (storeCalls (added w w1)) = 1" "dispatchCalls (added w w1) = []"
    using a by (simp_all add: storeCalls_append dispatchCalls_append)
  have later: "failsThenSucceeds reg c (k - 1) (trace w1)"
    using failsThenSucceeds_later[OF Suc.prems(1), of "added w w1"] grows_trace[OF g1] calls1
    by simp
  show ?case
  proof (cases k)
    case 0
    with out a(4) Suc.prems(2) o1 have "r = Inr ()" "w' = w1" by simp_all
    with 0 calls1 g1 later show ?thesis by simp
  next
    case (Suc k')
    with out a(4) Suc.prems(2) o1 c have rest:
      "retryLoop operation isOptimisticConcurrencyUnexpectedVersionError n w1 = (r, w')" by simp
    from later Suc have "failsThenSucceeds reg c k' (trace w1)" by simp
    note ih = Suc.IH[OF this rest]
    then have g2: "grows w1 w'" by simp
    have add: "added w w' = added w w1 @ added w1 w'" using g1 g2 by (rule added_trans)
    from ih calls1 Suc grows_trans[OF g1 g2] show ?thesis
      unfolding add by (simp add: storeCalls_append dispatchCalls_append)
  qed
qed

lemma persistEvent_oneStoreCall:
  "persistEvent clk reg a w = (r, w') \<Longrightarrow>
     grows w w' \<and>
     (\<exists>pre x. added w w' = pre @ [StoreCall x (store reg (trace w @ pre) x)]
              \<and> storeCalls pre = [] \<and> dispatchCalls pre = []
              \<and> r = settle (store reg (trace w @ pre) x))"
proof
  assume run: "persistEvent clk reg a w = (r, w')"
  then show "grows w w'" by (rule persistEvent_grows)
  let ?t = "clk (trace w)"
  let ?x = "(heap w a)\<lparr>persistedAt := Some ?t\<rparr>"
  from persistEvent_added[OF run] have
    "added w w' = [ClockRead ?t] @ [StoreCall ?x (store reg (trace w @ [ClockRead ?t]) ?x)]
     \<and> storeCalls [ClockRead ?t] = [] \<and> dispatchCalls [ClockRead ?t] = []
     \<and> r = settle (store reg (trace w @ [ClockRead ?t]) ?x)" by simp
  then show "\<exists>pre x. added w w' = pre @ [StoreCall x (store reg (trace w @ pre) x)]
              \<and> storeCalls pre = [] \<and> dispatchCalls pre = []
              \<and> r = settle (store reg (trace w @ pre) x)" by blast
qed

lemma snapshotStore_oneStoreCall:
  "registryStore reg (heap w a) w = (r, w') \<Longrightarrow>
     grows w w' \<and>
     (\<exists>pre x. added w w' = pre @ [StoreCall x (store reg (trace w @ pre) x)]
              \<and> storeCalls pre = [] \<and> dispatchCalls pre = []
              \<and> r = settle (store reg (trace w @ pre) x))"
proof
  assume run: "registryStore reg (heap w a) w = (r, w')"
  then show "grows w w'" by (rule registryStore_grows)
  from registryStore_added[OF run] have
    "added w w' = [] @ [StoreCall (heap w a) (store reg (trace w @ []) (heap w a))]
     \<and> storeCalls [] = [] \<and> dispatchCalls [] = []
     \<and> r = settle (store reg (trace w @ []) (heap w a))" by simp
  then show "\<exists>pre x. added w w' = pre @ [StoreCall x (store reg (trace w @ pre) x)]
              \<and> storeCalls pre = [] \<and> dispatchCalls pre = []
              \<and> r = settle (store reg (trace w @ pre) x)" by blast
qed

text \<open>Once the stub has stopped failing, every envelope is stored at its first attempt.\<close>

lemma persistAll_succeeding:
  "failsThenSucceeds reg c 0 (trace w) \<Longrightarrow> isOptimisticConcurrencyUnexpectedVersionError c \<Longrightarrow>
   persistAll clk m reg batch w = (r, w') \<Longrightarrow>
     r = Inr () \<and> length (storeCalls (added w w')) = length batch
     \<and> dispatchCalls (added w w') = []"
proof (induction batch arbitrary: w)
  case Nil
  then show ?case by (simp add: added_refl)
next
  case (Cons a rest)
  let ?isC = isOptimisticConcurrencyUnexpectedVersionError
  obtain r1 w1 where first: "retryLoop (persistEvent clk reg a) ?isC (m - 1) w = (r1, w1)"
    by (cases "retryLoop (persistEvent clk reg a) ?isC (m - 1) w")
  note one = retryLoop_failsThenSucceeds[of "persistEvent clk reg a" reg c 0 w "m - 1" r1 w1,
      OF persistEvent_oneStoreCall Cons.prems(2) Cons.prems(1) first]
  then have r1: "r1 = Inr ()" and g1: "grows w w1"
    and later: "failsThenSucceeds reg c 0 (trace w1)" by simp_all
  from Cons.prems(3) first r1 have rest: "persistAll clk m reg rest w1 = (r, w')"
    by (simp add: retryIfError_def)
  have g2: "grows w1 w'" using rest by (rule persistAll_grows)
  have add: "added w w' = added w w1 @ added w1 w'" using g1 g2 by (rule added_trans)
  from Cons.IH[OF later Cons.prems(2) rest] one show ?case
    unfolding add by (simp add: storeCalls_append dispatchCalls_append)
qed

lemma persistAll_failsThenSucceeds:
  assumes stub: "failsThenSucceeds reg c k (trace w)"
    and c: "isOptimisticConcurrencyUnexpectedVersionError c"
    and pos: "0 < m"
    and run: "persistAll clk m reg (a # rest) w = (r, w')"
  shows "r = (if k < m then Inr () else Inl c)
       \<and> length (storeCalls (added w w')) = (if k < m then Suc k + length rest else m)
       \<and> dispatchCalls (added w w') = []"
proof -
  let ?isC = isOptimisticConcurrencyUnexpectedVersionError
  obtain r1 w1 where first: "retryLoop (persistEvent clk reg a) ?isC (m - 1) w = (r1, w1)"
    by (cases "retryLoop (persistEvent clk reg a) ?isC (m - 1) w")
  note one = retryLoop_failsThenSucceeds[of "persistEvent clk reg a" reg c k w "m - 1" r1 w1,
      OF persistEvent_oneStoreCall c stub first]
  then have g1: "grows w w1" by simp
  show ?thesis
  proof (cases "k < m")
    case False
    with one pos have "r1 = Inl c" by (simp split: if_splits)
    with run first have "r = Inl c" "w' = w1" by (simp_all add: retryIfError_def)
    with one False pos show ?thesis by simp
  next
    case True
    with one pos have r1: "r1 = Inr ()" and later: "failsThenSucceeds reg c 0 (trace w1)"
      by (simp_all split: if_splits)
    from run first r1 have rest: "persistAll clk m reg rest w1 = (r, w')"
      by (simp add: retryIfError_def)
    have g2: "grows w1 w'" using rest by (rule persistAll_grows)
    have add: "added w w' = added w w1 @ added w1 w'" using g1 g2 by (rule added_trans)
    from persistAll_succeeding[OF later c rest] one True pos show ?thesis
      unfolding add by (simp add: storeCalls_append dispatchCalls_append)
  qed
qed

lemma retryLoop_other_error:
  "operation w = (Inl e, w1) \<Longrightarrow> \<not> k e \<Longrightarrow> retryLoop operation k n w = (Inl e, w1)"
  by (cases n) simp_all

text \<open>
  C4. Against a \<^verbatim>\<open>store\<close> stub that fails with a conflict error \<open>c\<close> on its first
  \<open>k\<close> calls and succeeds afterwards, with a bound of at least one attempt:
  \<^verbatim>\<open>storeSnapshot\<close> succeeds if \<open>k < maxAttempts\<close> and fails with \<open>c\<close> otherwise, after
  \<open>min (k + 1) maxAttempts\<close> calls of \<^verbatim>\<open>store\<close>; \<^verbatim>\<open>storeEvents\<close> on a batch that is
  not empty makes \<open>maxAttempts\<close> calls, fails with \<open>c\<close> and does not dispatch if
  \<open>maxAttempts \<le> k\<close>, and otherwise stores the whole batch in \<open>k + 1\<close> calls for the first
  envelope and one for each other, so that with a dispatcher that delivers it succeeds exactly
  when \<open>k < maxAttempts\<close>. When the first \<^verbatim>\<open>store\<close> call fails with an error that is not a
  conflict, either operation fails with that error after this one call.
\<close>

theorem retry_bounded:
  assumes "isOptimisticConcurrencyUnexpectedVersionError c" and "0 < maxAttempts"
  shows
    "(failsThenSucceeds eventRegistry c k (trace w) \<longrightarrow>
        fst (storeSnapshot maxAttempts eventRegistry snapshotEnvelope w)
          = (if k < maxAttempts then Inr () else Inl c)
      \<and> length (storeCalls (added w (snd (storeSnapshot maxAttempts eventRegistry snapshotEnvelope w))))
          = min (Suc k) maxAttempts)
   \<and> (failsThenSucceeds eventRegistry c k (trace w) \<longrightarrow>
        length (storeCalls (added w (snd (storeEvents clk maxAttempts userApp eventRegistry (a # rest) w))))
          = (if k < maxAttempts then Suc k + length rest else maxAttempts)
      \<and> length (dispatchCalls (added w (snd (storeEvents clk maxAttempts userApp eventRegistry (a # rest) w))))
          = (if k < maxAttempts then 1 else 0)
      \<and> (maxAttempts \<le> k \<longrightarrow>
            fst (storeEvents clk maxAttempts userApp eventRegistry (a # rest) w) = Inl c)
      \<and> ((\<forall>h seen. boosterEventDispatcher userApp h seen = None) \<longrightarrow>
            (fst (storeEvents clk maxAttempts userApp eventRegistry (a # rest) w) = Inr ()
               \<longleftrightarrow> k < maxAttempts)))
   \<and> (store eventRegistry (trace w) (heap w snapshotEnvelope) = Some e
        \<and> \<not> isOptimisticConcurrencyUnexpectedVersionError e \<longrightarrow>
        fst (storeSnapshot maxAttempts eventRegistry snapshotEnvelope w) = Inl e
      \<and> added w (snd (storeSnapshot maxAttempts eventRegistry snapshotEnvelope w))
          = [StoreCall (heap w snapshotEnvelope) (Some e)])
   \<and> (store eventRegistry (trace w @ [ClockRead (clk (trace w))])
          ((heap w a)\<lparr>persistedAt := Some (clk (trace w))\<rparr>) = Some e
        \<and> \<not> isOptimisticConcurrencyUnexpectedVersionError e \<longrightarrow>
        fst (storeEvents clk maxAttempts userApp eventRegistry (a # rest) w) = Inl e
      \<and> added w (snd (storeEvents clk maxAttempts userApp eventRegistry (a # rest) w))
          = [ClockRead (clk (trace w)),
             StoreCall ((heap w a)\<lparr>persistedAt := Some (clk (trace w))\<rparr>) (Some e)])"
proof -
  let ?isC = isOptimisticConcurrencyUnexpectedVersionError
  let ?snap = "storeSnapshot maxAttempts eventRegistry snapshotEnvelope w"
  let ?run = "storeEvents clk maxAttempts userApp eventRegistry (a # rest) w"
  have snapshot: "fst ?snap = (if k < maxAttempts then Inr () else Inl c)
      \<and> length (storeCalls (added w (snd ?snap))) = min (Suc k) maxAttempts"
    if stub: "failsThenSucceeds eventRegistry c k (trace w)"
  proof -
    have "retryLoop (\<lambda>w. registryStore eventRegistry (heap w snapshotEnvelope) w) ?isC
            (maxAttempts - 1) w = (fst ?snap, snd ?snap)"
      by (simp add: storeSnapshot_def retryIfError_def)
    from retryLoop_failsThenSucceeds[of "\<lambda>w. registryStore eventRegistry (heap w snapshotEnvelope) w"
        eventRegistry c k w "maxAttempts - 1" "fst ?snap" "snd ?snap",
        OF snapshotStore_oneStoreCall assms(1) stub this] assms(2)
    show ?thesis by (auto split: if_splits)
  qed
  have events: "length (storeCalls (added w (snd ?run)))
          = (if k < maxAttempts then Suc k + length rest else maxAttempts)
      \<and> length (dispatchCalls (added w (snd ?run))) = (if k < maxAttempts then 1 else 0)
      \<and> (maxAttempts \<le> k \<longrightarrow> fst ?run = Inl c)
      \<and> ((\<forall>h seen. boosterEventDispatcher userApp h seen = None) \<longrightarrow>
            (fst ?run = Inr () \<longleftrightarrow> k < maxAttempts))"
    if stub: "failsThenSucceeds eventRegistry c k (trace w)"
  proof -
    obtain r1 w1 where pa: "persistAll clk maxAttempts eventRegistry (a # rest) w = (r1, w1)"
      by (cases "persistAll clk maxAttempts eventRegistry (a # rest) w")
    note p = persistAll_failsThenSucceeds[OF stub assms pa]
    have g1: "grows w w1" using pa by (rule persistAll_grows)
    show ?thesis
    proof (cases "k < maxAttempts")
      case False
      with p pa have "?run = (Inl c, w1)" by (simp add: storeEvents_def del: persistAll.simps)
      with p False show ?thesis by simp
    next
      case True
      obtain r2 w2 where di: "dispatch userApp (a # rest) w1 = (r2, w2)"
        by (cases "dispatch userApp (a # rest) w1")
      with p pa True have run: "?run = (r2, w2)"
        by (simp add: storeEvents_def del: persistAll.simps)
      have g2: "grows w1 w2" using di by (rule dispatch_grows)
      have add: "added w w2 = added w w1 @ added w1 w2" using g1 g2 by (rule added_trans)
      from dispatch_added[OF di] p True show ?thesis
        by (auto simp: run add storeCalls_append dispatchCalls_append)
    qed
  qed
  have snapshot_other: "fst ?snap = Inl e
      \<and> added w (snd ?snap) = [StoreCall (heap w snapshotEnvelope) (Some e)]"
    if out: "store eventRegistry (trace w) (heap w snapshotEnvelope) = Some e" and e: "\<not> ?isC e"
  proof -
    obtain r1 w1 where op: "registryStore eventRegistry (heap w snapshotEnvelope) w = (r1, w1)"
      by (cases "registryStore eventRegistry (heap w snapshotEnvelope) w")
    from registryStore_added[OF op] out have
      r1: "r1 = Inl e" and add: "added w w1 = [StoreCall (heap w snapshotEnvelope) (Some e)]"
      by simp_all
    from op r1 e have "?snap = (Inl e, w1)"
      unfolding storeSnapshot_def retryIfError_def
      by (intro retryLoop_other_error) simp_all
    with add show ?thesis by simp
  qed
  have events_other: "fst ?run = Inl e
      \<and> added w (snd ?run) = [ClockRead (clk (trace w)),
             StoreCall ((heap w a)\<lparr>persistedAt := Some (clk (trace w))\<rparr>) (Some e)]"
    if out: "store eventRegistry (trace w @ [ClockRead (clk (trace w))])
          ((heap w a)\<lparr>persistedAt := Some (clk (trace w))\<rparr>) = Some e" and e: "\<not> ?isC e"
  proof -
    obtain r1 w1 where op: "persistEvent clk eventRegistry a w = (r1, w1)"
      by (cases "persistEvent clk eventRegistry a w")
    from persistEvent_added[OF op] out have
      r1: "r1 = Inl e" and add: "added w w1 = [ClockRead (clk (trace w)),
             StoreCall ((heap w a)\<lparr>persistedAt := Some (clk (trace w))\<rparr>) (Some e)]"
      by simp_all
    from op r1 e have "retryLoop (persistEvent clk eventRegistry a) ?isC (maxAttempts - 1) w = (Inl e, w1)"
      by (intro retryLoop_other_error) simp_all
    then have "?run = (Inl e, w1)" by (simp add: storeEvents_def retryIfError_def)
    with add show ?thesis by simp
  qed
  from snapshot events snapshot_other events_other show ?thesis by blast
qed

theorem retry_bounded_witness:
  "failsThenSucceeds (flakyRegistry 2 demoConflict) demoConflict 2 (trace demoWorld)
   \<and> fst (storeSnapshot 3 (flakyRegistry 2 demoConflict) 2 demoWorld) = Inr ()
   \<and> fst (storeSnapshot 2 (flakyRegistry 2 demoConflict) 2 demoWorld) = Inl demoConflict
   \<and> length (storeCalls (added demoWorld
        (snd (storeSnapshot 2 (flakyRegistry 2 demoConflict) 2 demoWorld)))) = 2
   \<and> fst (storeEvents demoClock 3 deliveringApp (flakyRegistry 2 demoConflict) [0, 1] demoWorld)
       = Inr ()
   \<and> fst (storeEvents demoClock 2 deliveringApp (flakyRegistry 2 demoConflict) [0, 1] demoWorld)
       = Inl demoConflict
   \<and> fst (storeSnapshot 3 (flakyRegistry 1 (OtherError ''disk full'')) 2 demoWorld)
       = Inl (OtherError ''disk full'')
   \<and> added demoWorld (snd (storeSnapshot 3 (flakyRegistry 1 (OtherError ''disk full'')) 2 demoWorld))
       = [StoreCall (demoEnvelope ''t3'') (Some (OtherError ''disk full''))]"
proof -
  have c: "isOptimisticConcurrencyUnexpectedVersionError demoConflict"
    by (simp add: demoConflict_def)
  have stub: "failsThenSucceeds (flakyRegistry 2 demoConflict) demoConflict 2 (trace demoWorld)"
    by (simp add: failsThenSucceeds_def flakyRegistry_def demoWorld_def)
  have delivers: "\<forall>h seen. boosterEventDispatcher deliveringApp h seen = None"
    by (simp add: deliveringApp_def)
  have other: "store (flakyRegistry 1 (OtherError ''disk full'')) (trace demoWorld) (heap demoWorld 2)
                 = Some (OtherError ''disk full'')
               \<and> \<not> isOptimisticConcurrencyUnexpectedVersionError (OtherError ''disk full'')"
    by (simp add: flakyRegistry_def demoWorld_def)
  have heap: "heap demoWorld 2 = demoEnvelope ''t3''" by (simp add: demoWorld_def)
  have three: "(0::nat) < 3" and two: "(0::nat) < 2" by simp_all
  note a = retry_bounded[OF c three, where eventRegistry = "flakyRegistry 2 demoConflict"
      and k = 2 and w = demoWorld and snapshotEnvelope = 2 and clk = demoClock
      and userApp = deliveringApp and a = 0 and rest = "[1]"]
  note b = retry_bounded[OF c two, where eventRegistry = "flakyRegistry 2 demoConflict"
      and k = 2 and w = demoWorld and snapshotEnvelope = 2 and clk = demoClock
      and userApp = deliveringApp and a = 0 and rest = "[1]"]
  note d = retry_bounded[OF c three, where eventRegistry = "flakyRegistry 1 (OtherError ''disk full'')"
      and w = demoWorld and snapshotEnvelope = 2 and e = "OtherError ''disk full''"]
  from a stub delivers have
    a1: "fst (storeSnapshot 3 (flakyRegistry 2 demoConflict) 2 demoWorld) = Inr ()"
    and a2: "fst (storeEvents demoClock 3 deliveringApp (flakyRegistry 2 demoConflict) [0, 1] demoWorld)
       = Inr ()" by simp_all
  from b stub have
    b1: "fst (storeSnapshot 2 (flakyRegistry 2 demoConflict) 2 demoWorld) = Inl demoConflict"
    and b2: "length (storeCalls (added demoWorld
        (snd (storeSnapshot 2 (flakyRegistry 2 demoConflict) 2 demoWorld)))) = 2"
    and b3: "fst (storeEvents demoClock 2 deliveringApp (flakyRegistry 2 demoConflict) [0, 1] demoWorld)
       = Inl demoConflict" by simp_all
  from d other have
    d1: "fst (storeSnapshot 3 (flakyRegistry 1 (OtherError ''disk full'')) 2 demoWorld)
       = Inl (OtherError ''disk full'')"
    and d2: "added demoWorld (snd (storeSnapshot 3 (flakyRegistry 1 (OtherError ''disk full'')) 2 demoWorld))
       = [StoreCall (demoEnvelope ''t3'') (Some (OtherError ''disk full''))]"
    unfolding heap by blast+
  from stub a1 a2 b1 b2 b3 d1 d2 show ?thesis by blast
qed

subsection \<open>A failing dispatcher\<close>

text \<open>
  C8 as stated does not hold: \<^verbatim>\<open>storeEvents\<close> awaits the dispatcher and does nothing
  with its failure, so the caller gets the dispatcher's error as it is. When the dispatcher
  fails with an error of the conflict class after both envelopes were stored, the result is
  that conflict error, the same result as when nothing was stored because the registry
  rejected every attempt.
\<close>

theorem storeEvents_dispatch_error_counterexample:
  "fst (storeEvents demoClock 3 (failingApp demoConflict) (flakyRegistry 0 demoConflict) [0, 1]
          demoWorld) = Inl demoConflict
   \<and> storedRecords (added demoWorld (snd (storeEvents demoClock 3 (failingApp demoConflict)
          (flakyRegistry 0 demoConflict) [0, 1] demoWorld)))
       = [(demoEnvelope ''t1'')\<lparr>persistedAt := Some ''T''\<rparr>,
          (demoEnvelope ''t2'')\<lparr>persistedAt := Some ''TTT''\<rparr>]
   \<and> dispatchCalls (added demoWorld (snd (storeEvents demoClock 3 (failingApp demoConflict)
          (flakyRegistry 0 demoConflict) [0, 1] demoWorld)))
       = [([0, 1], [demoEnvelope ''t1'', demoEnvelope ''t2''], Some demoConflict)]
   \<and> isOptimisticConcurrencyUnexpectedVersionError demoConflict
   \<and> fst (storeEvents demoClock 3 deliveringApp (stubbornRegistry ''t1'') [0, 1] demoWorld)
       = Inl demoConflict
   \<and> storedRecords (added demoWorld (snd (storeEvents demoClock 3 deliveringApp
          (stubbornRegistry ''t1'') [0, 1] demoWorld))) = []"
  by (simp add: demo_defs failingApp_def stubbornRegistry_def storedRecords_def)

text \<open>
  C8, amended. When every envelope of the batch was stored and \<^verbatim>\<open>storeEvents\<close> fails
  with \<open>e\<close>, then \<open>e\<close> is the error the dispatcher failed with, handed on unchanged; the
  dispatcher was called once, as the last thing \<^verbatim>\<open>storeEvents\<close> did, and before that call
  each envelope was stored once.
\<close>

theorem storeEvents_dispatch_failure:
  assumes "allocated w eventEnvelopes"
    and "storeEvents clk maxAttempts userApp eventRegistry eventEnvelopes w = (Inl e, w')"
    and "length (storedRecords (added w w')) = length eventEnvelopes"
  shows "\<exists>before.
           added w w' = before @ [DispatchCall eventEnvelopes (map (heap w) eventEnvelopes) (Some e)]
         \<and> boosterEventDispatcher userApp (trace w @ before) (map (heap w) eventEnvelopes) = Some e
         \<and> dispatchCalls before = []
         \<and> map withoutPersistedAt (storedRecords before)
             = map (\<lambda>a. withoutPersistedAt (heap w a)) eventEnvelopes"
proof -
  from assms(1) have alloc: "\<forall>a\<in>set eventEnvelopes. a < next_free w"
    by (simp add: allocated_iff)
  obtain r1 w1 where pa: "persistAll clk maxAttempts eventRegistry eventEnvelopes w = (r1, w1)"
    by (cases "persistAll clk maxAttempts eventRegistry eventEnvelopes w")
  have g1: "grows w w1" using pa by (rule persistAll_grows)
  note sto = persistAll_stored[OF pa alloc]
  have r1: "r1 = Inr ()"
  proof (cases r1)
    case (Inl e')
    with pa assms(2) have "w' = w1" by (simp add: storeEvents_def)
    with sto Inl assms(3) show ?thesis by simp
  qed simp
  with pa assms(2) have di: "dispatch userApp eventEnvelopes w1 = (Inl e, w')"
    by (simp add: storeEvents_def)
  have g2: "grows w1 w'" using di by (rule dispatch_grows)
  have add: "added w w' = added w w1 @ added w1 w'" using g1 g2 by (rule added_trans)
  have same: "map (heap w1) eventEnvelopes = map (heap w) eventEnvelopes"
    using alloc g1 by (simp add: grows_heap)
  from dispatch_added[OF di] have
    out: "boosterEventDispatcher userApp (trace w1) (map (heap w) eventEnvelopes) = Some e"
    unfolding same
    by (cases "boosterEventDispatcher userApp (trace w1) (map (heap w) eventEnvelopes)") simp_all
  from dispatch_added[OF di] out have add2:
    "added w1 w' = [DispatchCall eventEnvelopes (map (heap w) eventEnvelopes) (Some e)]"
    unfolding same by simp
  have "added w w' = added w w1 @ [DispatchCall eventEnvelopes (map (heap w) eventEnvelopes) (Some e)]"
    using add add2 by simp
  moreover have "boosterEventDispatcher userApp (trace w @ added w w1) (map (heap w) eventEnvelopes) = Some e"
    using out grows_trace[OF g1] by simp
  moreover have "dispatchCalls (added w w1) = []" using sto by simp
  moreover have "map withoutPersistedAt (storedRecords (added w w1))
             = map (\<lambda>a. withoutPersistedAt (heap w a)) eventEnvelopes"
    using sto r1 by simp
  ultimately show ?thesis by blast
qed

theorem storeEvents_dispatch_failure_witness:
  "allocated demoWorld [0, 1]
   \<and> fst (storeEvents demoClock 3 (failingApp (OtherError ''handler crashed''))
        (flakyRegistry 0 demoConflict) [0, 1] demoWorld) = Inl (OtherError ''handler crashed'')
   \<and> (\<exists>before.
        added demoWorld (snd (storeEvents demoClock 3 (failingApp (OtherError ''handler crashed''))
          (flakyRegistry 0 demoConflict) [0, 1] demoWorld))
          = before @ [DispatchCall [0, 1] (map (heap demoWorld) [0, 1])
                        (Some (OtherError ''handler crashed''))]
        \<and> dispatchCalls before = []
        \<and> map withoutPersistedAt (storedRecords before)
             = map (\<lambda>a. withoutPersistedAt (heap demoWorld a)) [0, 1])"
proof -
  let ?run = "storeEvents demoClock 3 (failingApp (OtherError ''handler crashed''))
        (flakyRegistry 0 demoConflict) [0, 1] demoWorld"
  have alloc: "allocated demoWorld [0, 1]"
    by (simp add: allocated_def demoWorld_def)
  have res: "fst ?run = Inl (OtherError ''handler crashed'')"
    by (simp add: demo_defs failingApp_def)
  then have run: "?run = (Inl (OtherError ''handler crashed''), snd ?run)"
    by (metis surjective_pairing)
  have all: "length (storedRecords (added demoWorld (snd ?run))) = length [0::nat, 1]"
    by (simp add: demo_defs failingApp_def storedRecords_def)
  from storeEvents_dispatch_failure[OF alloc run all] alloc res
  show ?thesis by blast
qed

subsection \<open>Reading\<close>

text \<open>
  C6. \<^verbatim>\<open>readEntityEventsSince\<close> makes one call of \<^verbatim>\<open>query\<close>, with the filter on the
  given entity, the given type name, the kind \<^verbatim>\<open>event\<close> and the lower bound on
  \<^verbatim>\<open>createdAt\<close>, and its result is the result of that call as it is. The bound is the
  origin of time when \<^verbatim>\<open>since\<close> is absent (or the empty string, which is falsy too) and
  \<^verbatim>\<open>since\<close> otherwise. If the registry returns only records that match the filter it is
  given, no record of the result has a \<^verbatim>\<open>createdAt\<close> equal to \<^verbatim>\<open>since\<close>.
\<close>

theorem readEntityEventsSince_query:
  "readEntityEventsSince eventRegistry tn eid since w =
     (query eventRegistry (trace w)
        \<lparr>q_entityID = eid, q_entityTypeName = tn, q_kind = ''event'',
         q_createdAt_gt = fromTime since\<rparr>,
      w\<lparr>trace := trace w @
           [QueryCall \<lparr>q_entityID = eid, q_entityTypeName = tn, q_kind = ''event'',
                       q_createdAt_gt = fromTime since\<rparr>
              (query eventRegistry (trace w)
                 \<lparr>q_entityID = eid, q_entityTypeName = tn, q_kind = ''event'',
                  q_createdAt_gt = fromTime since\<rparr>)]\<rparr>)
   \<and> fromTime None = ''1970-01-01T00:00:00.000Z''
   \<and> fromTime (Some s) = (if s = [] then ''1970-01-01T00:00:00.000Z'' else s)
   \<and> ((\<forall>h q found. query eventRegistry h q = Inr found \<longrightarrow> list_all (matches q) found) \<longrightarrow>
        fst (readEntityEventsSince eventRegistry tn eid (Some s) w) = Inr result \<longrightarrow>
        list_all (\<lambda>r. createdAt r \<noteq> s \<and> s < createdAt r \<and> entityID r = eid
                       \<and> entityTypeName r = tn \<and> kind r = ''event'') result)"
proof -
  have 1: "readEntityEventsSince eventRegistry tn eid since w =
     (query eventRegistry (trace w)
        \<lparr>q_entityID = eid, q_entityTypeName = tn, q_kind = ''event'',
         q_createdAt_gt = fromTime since\<rparr>,
      w\<lparr>trace := trace w @
           [QueryCall \<lparr>q_entityID = eid, q_entityTypeName = tn, q_kind = ''event'',
                       q_createdAt_gt = fromTime since\<rparr>
              (query eventRegistry (trace w)
                 \<lparr>q_entityID = eid, q_entityTypeName = tn, q_kind = ''event'',
                  q_createdAt_gt = fromTime since\<rparr>)]\<rparr>)" for since
    by (simp add: readEntityEventsSince_def registryQuery_def Let_def)
  have 2: "fromTime None = ''1970-01-01T00:00:00.000Z''"
    by (simp add: fromTime_def originOfTime_def)
  have 3: "fromTime (Some s) = (if s = [] then ''1970-01-01T00:00:00.000Z'' else s)"
    by (simp add: fromTime_def originOfTime_def)
  have 4: "list_all (\<lambda>r. createdAt r \<noteq> s \<and> s < createdAt r \<and> entityID r = eid
                       \<and> entityTypeName r = tn \<and> kind r = ''event'') result"
    if honest: "\<forall>h q found. query eventRegistry h q = Inr found \<longrightarrow> list_all (matches q) found"
      and res: "fst (readEntityEventsSince eventRegistry tn eid (Some s) w) = Inr result"
  proof -
    let ?q = "\<lparr>q_entityID = eid, q_entityTypeName = tn, q_kind = ''event'',
               q_createdAt_gt = fromTime (Some s)\<rparr>"
    from res have "query eventRegistry (trace w) ?q = Inr result" by (simp add: 1)
    with honest have m: "list_all (matches ?q) result" by blast
    have "s < createdAt r" if "fromTime (Some s) < createdAt r" for r
      using that by (cases "s = []"; cases "createdAt r") (auto simp: fromTime_def)
    with m show ?thesis by (auto simp: list_all_iff matches_def)
  qed
  from 1 2 3 4 show ?thesis by blast
qed


theorem readEntityEventsSince_query_witness:
  "fst (readEntityEventsSince memoryRegistry ''Order'' ''order-1'' None demoWorld) = Inr []
   \<and> fst (readEntityEventsSince memoryRegistry ''Order'' ''order-1'' None
        (snd (storeEvents demoClock 3 deliveringApp memoryRegistry [0, 1] demoWorld)))
       = Inr [(demoEnvelope ''t1'')\<lparr>persistedAt := Some ''T''\<rparr>,
              (demoEnvelope ''t2'')\<lparr>persistedAt := Some ''TTT''\<rparr>]
   \<and> fst (readEntityEventsSince memoryRegistry ''Order'' ''order-1'' (Some ''t1'')
        (snd (storeEvents demoClock 3 deliveringApp memoryRegistry [0, 1] demoWorld)))
       = Inr [(demoEnvelope ''t2'')\<lparr>persistedAt := Some ''TTT''\<rparr>]
   \<and> list_all (\<lambda>r. createdAt r \<noteq> ''t1'' \<and> ''t1'' < createdAt r \<and> entityID r = ''order-1''
                  \<and> entityTypeName r = ''Order'' \<and> kind r = ''event'')
        [(demoEnvelope ''t2'')\<lparr>persistedAt := Some ''TTT''\<rparr>]"
proof -
  let ?w = "snd (storeEvents demoClock 3 deliveringApp memoryRegistry [0, 1] demoWorld)"
  have honest: "\<forall>h q found. query memoryRegistry h q = Inr found \<longrightarrow> list_all (matches q) found"
    by (auto simp: memoryRegistry_def list_all_iff)
  have before: "fst (readEntityEventsSince memoryRegistry ''Order'' ''order-1'' None demoWorld) = Inr []"
    by (simp add: readEntityEventsSince_def registryQuery_def memoryRegistry_def demoWorld_def
        storedRecords_def Let_def)
  have tr: "storedRecords (trace ?w) = [(demoEnvelope ''t1'')\<lparr>persistedAt := Some ''T''\<rparr>,
              (demoEnvelope ''t2'')\<lparr>persistedAt := Some ''TTT''\<rparr>]"
    by (simp add: demo_defs memoryRegistry_def storedRecords_def)
  have q: "query memoryRegistry h q = Inr (sort_key createdAt (filter (matches q) (storedRecords h)))"
    for h q by (simp add: memoryRegistry_def)
  have all: "fst (readEntityEventsSince memoryRegistry ''Order'' ''order-1'' None ?w)
       = Inr [(demoEnvelope ''t1'')\<lparr>persistedAt := Some ''T''\<rparr>,
              (demoEnvelope ''t2'')\<lparr>persistedAt := Some ''TTT''\<rparr>]"
    by (simp only: readEntityEventsSince_def registryQuery_def Let_def q fst_conv tr)
       (simp add: matches_def demoEnvelope_def fromTime_def originOfTime_def)
  have after: "fst (readEntityEventsSince memoryRegistry ''Order'' ''order-1'' (Some ''t1'') ?w)
       = Inr [(demoEnvelope ''t2'')\<lparr>persistedAt := Some ''TTT''\<rparr>]"
    by (simp only: readEntityEventsSince_def registryQuery_def Let_def q fst_conv tr)
       (simp add: matches_def demoEnvelope_def fromTime_def)
  from readEntityEventsSince_query[of memoryRegistry "''Order''" "''order-1''" "Some ''t1''" ?w "''t1''"
      "[(demoEnvelope ''t2'')\<lparr>persistedAt := Some ''TTT''\<rparr>]"] honest after
  have "list_all (\<lambda>r. createdAt r \<noteq> ''t1'' \<and> ''t1'' < createdAt r \<and> entityID r = ''order-1''
                  \<and> entityTypeName r = ''Order'' \<and> kind r = ''event'')
        [(demoEnvelope ''t2'')\<lparr>persistedAt := Some ''TTT''\<rparr>]" by blast
  with before all after show ?thesis by blast
qed

text \<open>
  C7. \<^verbatim>\<open>readEntityLatestSnapshot\<close> makes one call of \<^verbatim>\<open>queryLatestSnapshot\<close>, for the
  given entity and the kind \<^verbatim>\<open>snapshot\<close>. When the registry answers with a snapshot, that
  snapshot is the result; when it answers that there is none (\<^verbatim>\<open>undefined\<close> or
  \<^verbatim>\<open>null\<close>), the call succeeds with the absent value, not with an error and not with
  an object; the call fails only when the registry's call fails, and with its error.
\<close>

theorem readEntityLatestSnapshot_result:
  "(queryLatestSnapshot eventRegistry (trace w)
       \<lparr>sq_entityID = eid, sq_entityTypeName = tn, sq_kind = ''snapshot''\<rparr>
      = Inr (SnapshotObject snapshot) \<longrightarrow>
      fst (readEntityLatestSnapshot eventRegistry tn eid w) = Inr (Some snapshot))
   \<and> (queryLatestSnapshot eventRegistry (trace w)
         \<lparr>sq_entityID = eid, sq_entityTypeName = tn, sq_kind = ''snapshot''\<rparr>
        \<in> {Inr JsUndefined, Inr JsNull} \<longrightarrow>
      fst (readEntityLatestSnapshot eventRegistry tn eid w) = Inr None)
   \<and> (fst (readEntityLatestSnapshot eventRegistry tn eid w) = Inl e \<longleftrightarrow>
        queryLatestSnapshot eventRegistry (trace w)
          \<lparr>sq_entityID = eid, sq_entityTypeName = tn, sq_kind = ''snapshot''\<rparr> = Inl e)
   \<and> added w (snd (readEntityLatestSnapshot eventRegistry tn eid w))
       = [QueryLatestSnapshotCall
            \<lparr>sq_entityID = eid, sq_entityTypeName = tn, sq_kind = ''snapshot''\<rparr>
            (queryLatestSnapshot eventRegistry (trace w)
               \<lparr>sq_entityID = eid, sq_entityTypeName = tn, sq_kind = ''snapshot''\<rparr>)]"
  by (auto simp: readEntityLatestSnapshot_def registryQueryLatestSnapshot_def Let_def added_def
      split: sum.splits snapshot_result.splits)

theorem readEntityLatestSnapshot_result_witness:
  "fst (readEntityLatestSnapshot memoryRegistry ''Order'' ''order-1'' snapshotWorld) = Inr None
   \<and> fst (storeSnapshot 3 memoryRegistry 2 snapshotWorld) = Inr ()
   \<and> fst (readEntityLatestSnapshot memoryRegistry ''Order'' ''order-1''
            (snd (storeSnapshot 3 memoryRegistry 2 snapshotWorld))) = Inr (Some demoSnapshot)"
proof -
  let ?q = "\<lparr>sq_entityID = ''order-1'', sq_entityTypeName = ''Order'', sq_kind = ''snapshot''\<rparr>"
  let ?w = "snd (storeSnapshot 3 memoryRegistry 2 snapshotWorld)"
  have none: "queryLatestSnapshot memoryRegistry (trace snapshotWorld) ?q
                \<in> {Inr JsUndefined, Inr JsNull}"
    by (simp add: memoryRegistry_def snapshotWorld_def demoWorld_def storedRecords_def)
  have stored: "fst (storeSnapshot 3 memoryRegistry 2 snapshotWorld) = Inr ()"
    by (simp add: storeSnapshot_def retryIfError_def registryStore_def memoryRegistry_def
        eval_nat_numeral Let_def)
  have tr: "storedRecords (trace ?w) = [demoSnapshot]"
    by (simp add: storeSnapshot_def retryIfError_def registryStore_def memoryRegistry_def
        eval_nat_numeral Let_def snapshotWorld_def demoWorld_def storedRecords_def)
  have q: "queryLatestSnapshot memoryRegistry h q =
        (case sort_key createdAt (filter (matchesSnapshot q) (storedRecords h)) of
          [] \<Rightarrow> Inr JsUndefined
        | x # xs \<Rightarrow> Inr (SnapshotObject (last (x # xs))))" for h q
    by (simp add: memoryRegistry_def)
  have some: "queryLatestSnapshot memoryRegistry (trace ?w) ?q = Inr (SnapshotObject demoSnapshot)"
    by (simp only: q tr) (simp add: matchesSnapshot_def demoSnapshot_def)
  from readEntityLatestSnapshot_result[of memoryRegistry snapshotWorld "''order-1''" "''Order''"]
    none
  have a: "fst (readEntityLatestSnapshot memoryRegistry ''Order'' ''order-1'' snapshotWorld) = Inr None"
    by blast
  from readEntityLatestSnapshot_result[of memoryRegistry ?w "''order-1''" "''Order''" demoSnapshot]
    some
  have b: "fst (readEntityLatestSnapshot memoryRegistry ''Order'' ''order-1'' ?w)
             = Inr (Some demoSnapshot)"
    by blast
  from a stored b show ?thesis by blast
qed

subsection \<open>Envelopes are never mutated\<close>

text \<open>
  C9. No operation changes an object that existed before the call: after
  \<^verbatim>\<open>storeEvents\<close>, \<^verbatim>\<open>storeSnapshot\<close> and the two reads every such object, the caller's
  envelopes among them, has the contents it had (so an envelope without \<^verbatim>\<open>persistedAt\<close>
  still has none). \<^verbatim>\<open>persistEvent\<close> leaves the envelope as it was and puts the record it
  stores, the envelope's properties with \<^verbatim>\<open>persistedAt\<close> set, into a new object.
\<close>

theorem envelopes_never_mutated:
  assumes "a < next_free w"
  shows "heap (snd (storeEvents clk maxAttempts userApp eventRegistry eventEnvelopes w)) a = heap w a
       \<and> heap (snd (storeSnapshot maxAttempts eventRegistry snapshotEnvelope w)) a = heap w a
       \<and> heap (snd (readEntityEventsSince eventRegistry tn eid since w)) a = heap w a
       \<and> heap (snd (readEntityLatestSnapshot eventRegistry tn eid w)) a = heap w a
       \<and> heap (snd (persistEvent clk eventRegistry a w)) a = heap w a
       \<and> heap (snd (persistEvent clk eventRegistry a w)) (next_free w) =
           (heap w a)\<lparr>persistedAt := Some (clk (trace w))\<rparr>"
proof -
  have g: "\<And>f. grows w (snd f) \<Longrightarrow> heap (snd f) a = heap w a"
    using assms by (simp add: grows_heap)
  have 1: "heap (snd (storeEvents clk maxAttempts userApp eventRegistry eventEnvelopes w)) a = heap w a"
    by (rule g) (rule storeEvents_grows[OF surjective_pairing])
  have 2: "heap (snd (storeSnapshot maxAttempts eventRegistry snapshotEnvelope w)) a = heap w a"
    by (rule g) (rule storeSnapshot_grows[OF surjective_pairing])
  have 3: "heap (snd (readEntityEventsSince eventRegistry tn eid since w)) a = heap w a"
    by (rule g) (rule readEntityEventsSince_grows[OF surjective_pairing])
  have 4: "heap (snd (readEntityLatestSnapshot eventRegistry tn eid w)) a = heap w a"
    by (rule g) (rule readEntityLatestSnapshot_grows[OF surjective_pairing])
  have 5: "heap (snd (persistEvent clk eventRegistry a w)) a = heap w a"
    by (rule g) (rule persistEvent_grows[OF surjective_pairing])
  have 6: "heap (snd (persistEvent clk eventRegistry a w)) (next_free w) =
           (heap w a)\<lparr>persistedAt := Some (clk (trace w))\<rparr>"
    by (simp add: persistEvent_eq)
  from 1 2 3 4 5 6 show ?thesis by simp
qed

theorem envelopes_never_mutated_witness:
  "heap (snd (storeEvents demoClock 3 deliveringApp (flakyRegistry 1 demoConflict) [0, 1] demoWorld)) 1
     = demoEnvelope ''t2''
   \<and> persistedAt (demoEnvelope ''t2'') = None
   \<and> heap (snd (persistEvent demoClock (flakyRegistry 1 demoConflict) 1 demoWorld)) 3
     = (demoEnvelope ''t2'')\<lparr>persistedAt := Some ''T''\<rparr>"
proof -
  have existing: "1 < next_free demoWorld" by (simp add: demoWorld_def)
  from envelopes_never_mutated[OF existing, where clk = demoClock and maxAttempts = 3
      and userApp = deliveringApp and eventRegistry = "flakyRegistry 1 demoConflict"
      and eventEnvelopes = "[0, 1]"]
  show ?thesis by (simp add: demoWorld_def demoClock_def demoEnvelope_def)
qed

subsection \<open>The empty batch\<close>

text \<open>
  C10. For the empty batch \<^verbatim>\<open>storeEvents\<close> makes no registry call: the only thing it adds
  to the trace is one call of the dispatcher, with the empty sequence. Its result is the
  outcome of that call, so it succeeds exactly when the dispatcher does.
\<close>

theorem storeEvents_empty_batch:
  "storeEvents clk maxAttempts userApp eventRegistry [] w =
     (settle (boosterEventDispatcher userApp (trace w) []),
      w\<lparr>trace := trace w @ [DispatchCall [] [] (boosterEventDispatcher userApp (trace w) [])]\<rparr>)
   \<and> (fst (storeEvents clk maxAttempts userApp eventRegistry [] w) = Inr ()
        \<longleftrightarrow> boosterEventDispatcher userApp (trace w) [] = None)"
  by (cases "boosterEventDispatcher userApp (trace w) []")
     (simp_all add: storeEvents_def dispatch_def)

end
